theory Spec2Isabelle
  imports Main
begin

section \<open>Python values used by game/DailyTasks.py\<close>

text \<open>
  Window handles are Python ints, team ids and task names are Python strings.
  Wall-clock readings (\<open>time.time()\<close>, \<open>datetime.now()\<close>) are integers counting
  microseconds since the epoch; reading the clock is explicit in every operation that
  does so in the source.
\<close>

type_synonym hwnd = int
type_synonym team_id = string
type_synonym micros = int

datatype TaskRole = LEADER | MEMBER | SOLO

fun role_value :: "TaskRole \<Rightarrow> string" where
  "role_value LEADER = ''leader''"
| "role_value MEMBER = ''member''"
| "role_value SOLO = ''solo''"

datatype py_error = KeyError string | TypeError string | ValueError string | Raised string

subsection \<open>\<open>str(int)\<close> and \<open>int(float)\<close>\<close>

definition digit_char :: "nat \<Rightarrow> char" where
  \<comment> \<open>the decimal digit \<open>d\<close> as a character: \<open>chr(ord('0') + d)\<close>\<close>
  "digit_char d = char_of (48 + d)"

fun str_nat :: "nat \<Rightarrow> string" where
  "str_nat n = (if n < 10 then [digit_char n] else str_nat (n div 10) @ [digit_char (n mod 10)])"

declare str_nat.simps [simp del]

definition str_int :: "int \<Rightarrow> string" where
  "str_int i = (if i < 0 then CHR ''-'' # str_nat (nat (- i)) else str_nat (nat i))"

definition whole_seconds :: "micros \<Rightarrow> int" where
  \<comment> \<open>\<open>int(time.time())\<close>: truncation towards zero of the clock reading to whole seconds.\<close>
  "whole_seconds t = (if 0 \<le> t then t div 1000000 else - ((- t) div 1000000))"

section \<open>TeamTaskCoordinator\<close>

datatype team_status = forming | ready

record team_info =
  task_name :: string
  leader :: hwnd
  members :: "hwnd list"
  status :: team_status
  created_at :: micros

text \<open>
  The three dictionaries of the coordinator. An \<open>asyncio.Event\<close> is represented by its
  internal flag: \<open>False\<close> when created, \<open>True\<close> once \<open>set()\<close> was called.
\<close>

record coordinator =
  team_tasks :: "team_id \<rightharpoonup> team_info"
  team_members :: "team_id \<rightharpoonup> hwnd list"
  team_events :: "team_id \<rightharpoonup> bool"

definition new_coordinator :: coordinator where
  "new_coordinator = \<lparr>team_tasks = Map.empty, team_members = Map.empty, team_events = Map.empty\<rparr>"

definition make_team_id :: "string \<Rightarrow> hwnd \<Rightarrow> micros \<Rightarrow> team_id" where
  \<comment> \<open>\<open>f"{task_name}_{leader_hwnd}_{int(time.time())}"\<close>\<close>
  "make_team_id tname ldr now = tname @ ''_'' @ str_int ldr @ ''_'' @ str_int (whole_seconds now)"

definition create_team :: "string \<Rightarrow> hwnd \<Rightarrow> hwnd list \<Rightarrow> micros \<Rightarrow> coordinator \<Rightarrow> team_id \<times> coordinator" where
  "create_team tname ldr mems now c =
     (let tid = make_team_id tname ldr now in
      (tid,
       c\<lparr>team_tasks := (team_tasks c)(tid \<mapsto>
            \<lparr>task_name = tname, leader = ldr, members = mems, status = forming, created_at = now\<rparr>),
         team_members := (team_members c)(tid \<mapsto> ldr # mems),
         team_events := (team_events c)(tid \<mapsto> False)\<rparr>))"

text \<open>
  \<open>wait_for_team_ready\<close> looks the event up with \<open>self.team_events[team_id]\<close> before it
  waits, so a missing key raises \<open>KeyError\<close>; only \<open>asyncio.TimeoutError\<close> is caught.
  \<open>asyncio.wait_for\<close> with a timeout that is not positive cancels the wait before it
  has started and raises \<open>TimeoutError\<close>, also for an event that is set. What happens
  while the caller is suspended is given by \<open>fires_after\<close>: the number of seconds after
  which another task sets the event, if any does.
\<close>

definition wait_for_team_ready :: "coordinator \<Rightarrow> team_id \<Rightarrow> int \<Rightarrow> int option \<Rightarrow> py_error + bool" where
  "wait_for_team_ready c tid timeout fires_after =
     (case team_events c tid of
        None \<Rightarrow> Inl (KeyError tid)
      | Some is_set \<Rightarrow>
          Inr (if timeout \<le> 0 then False
               else if is_set then True
               else (case fires_after of None \<Rightarrow> False | Some d \<Rightarrow> d < timeout)))"

definition set_team_ready :: "team_id \<Rightarrow> coordinator \<Rightarrow> py_error option \<times> coordinator" where
  "set_team_ready tid c =
     (case team_tasks c tid of
        None \<Rightarrow> (None, c)
      | Some info \<Rightarrow>
          (let c1 = c\<lparr>team_tasks := (team_tasks c)(tid \<mapsto> info\<lparr>status := ready\<rparr>)\<rparr> in
           case team_events c1 tid of
             None \<Rightarrow> (Some (KeyError tid), c1)
           | Some _ \<Rightarrow> (None, c1\<lparr>team_events := (team_events c1)(tid \<mapsto> True)\<rparr>)))"

text \<open>
  Both mutators can leave through a \<open>KeyError\<close> after a partial update
  (\<open>self.team_events[team_id]\<close>, \<open>del self.team_members[team_id]\<close>); the model
  returns the error, if any, together with the coordinator as the exception leaves it.
  \<open>disband_team\<close> deletes with \<open>del\<close>; \<open>del self.team_members[team_id]\<close> raises
  \<open>KeyError\<close> when the key is missing, after the entry of \<open>team_tasks\<close> is already gone.
\<close>

definition disband_team :: "team_id \<Rightarrow> coordinator \<Rightarrow> py_error option \<times> coordinator" where
  "disband_team tid c =
     (if tid \<in> dom (team_tasks c) then
        (let c1 = c\<lparr>team_tasks := (team_tasks c)(tid := None)\<rparr> in
         if tid \<in> dom (team_members c1) then
           (let c2 = c1\<lparr>team_members := (team_members c1)(tid := None)\<rparr> in
            (None, if tid \<in> dom (team_events c2)
                   then c2\<lparr>team_events := (team_events c2)(tid := None)\<rparr> else c2))
         else (Some (KeyError tid), c1))
      else (None, c))"

definition get_team_role :: "coordinator \<Rightarrow> team_id \<Rightarrow> hwnd \<Rightarrow> TaskRole" where
  "get_team_role c tid h =
     (case team_tasks c tid of
        None \<Rightarrow> SOLO
      | Some info \<Rightarrow>
          if h = leader info then LEADER
          else if h \<in> set (members info) then MEMBER
          else SOLO)"

definition get_team_members :: "coordinator \<Rightarrow> team_id \<Rightarrow> hwnd list" where
  "get_team_members c tid = (case team_members c tid of None \<Rightarrow> [] | Some hs \<Rightarrow> hs)"

datatype coord_op =
    CreateTeam string hwnd "hwnd list" micros
  | SetTeamReady team_id
  | DisbandTeam team_id

fun exec_op :: "coord_op \<Rightarrow> coordinator \<Rightarrow> coordinator" where
  "exec_op (CreateTeam tname ldr mems now) c = snd (create_team tname ldr mems now c)"
| "exec_op (SetTeamReady tid) c = snd (set_team_ready tid c)"
| "exec_op (DisbandTeam tid) c = snd (disband_team tid c)"

fun run_ops :: "coord_op list \<Rightarrow> coordinator \<Rightarrow> coordinator" where
  "run_ops [] c = c"
| "run_ops (op # ops) c = run_ops ops (exec_op op c)"

fun issued_id :: "coord_op \<Rightarrow> team_id option" where
  "issued_id (CreateTeam tname ldr mems now) = Some (make_team_id tname ldr now)"
| "issued_id (SetTeamReady tid) = None"
| "issued_id (DisbandTeam tid) = None"

definition coord_inv :: "coordinator \<Rightarrow> bool" where
  "coord_inv c \<longleftrightarrow> dom (team_members c) = dom (team_tasks c) \<and> dom (team_events c) = dom (team_tasks c)"

definition team_status_of :: "coordinator \<Rightarrow> team_id \<Rightarrow> team_status option" where
  "team_status_of c tid = map_option status (team_tasks c tid)"

section \<open>WindowTaskExecutor\<close>

text \<open>
  What an opaque call (a task function, the connection to the window, the executor's
  constructor) can raise, by the way the program treats it:
  \<^item> \<open>Exception s\<close>: an instance of \<open>Exception\<close>, with \<open>str(e) = s\<close>; this is what
    \<open>except Exception\<close> catches;
  \<^item> \<open>Escaping n\<close>: an exception outside \<open>Exception\<close> that asyncio stores in the task it
    leaves (\<open>asyncio.CancelledError\<close> and any other \<open>BaseException\<close> but the next two);
  \<^item> \<open>Fatal n\<close>: \<open>KeyboardInterrupt\<close> or \<open>SystemExit\<close>, which asyncio stores in the task
    and raises again out of the event loop.
  For the last two \<open>n\<close> names the exception.
\<close>

datatype raised = Exception string | Escaping string | Fatal string

text \<open>
  A task function returns a dict, or a value that is no dict (Python's \<open>None\<close>, as
  \<open>shi_men_ren_wu\<close> does), or raises.
\<close>

datatype pyval = PNone | PStr string | PInt int

type_synonym pydict = "string \<rightharpoonup> pyval"

definition squote :: char where
  "squote = CHR 0x27"

definition set_item :: "pydict option \<Rightarrow> string \<Rightarrow> pyval \<Rightarrow> raised + pydict" where
  \<comment> \<open>\<open>result[k] = v\<close>; on \<open>None\<close> a \<open>TypeError\<close> with this text\<close>
  "set_item r k v =
     (case r of
        None \<Rightarrow> Inl (Exception (squote # ''NoneType'' @ squote # '' object does not support item assignment''))
      | Some d \<Rightarrow> Inr (d(k \<mapsto> v)))"

text \<open>
  How a task function is called: \<open>task_func(self.hwnd)\<close> in the thread pool on the solo
  path, \<open>await task_func(role, team_id)\<close> on the team path. What the call does is opaque
  to the executor: it returns or raises, takes some time, and while it is suspended
  \<open>DailyTasks.stop_tasks\<close> may clear the executor's \<open>is_running\<close> flag.
\<close>

datatype task_call = CallSolo hwnd | CallTeam TaskRole team_id

record task_outcome =
  returned :: "raised + pydict option"
  elapsed :: micros
  stop_requested :: bool

record task_config =
  is_team_task :: "bool option"
  team_size :: "int option"

record task_spec =
  t_name :: string
  t_func :: "task_call \<Rightarrow> task_outcome"
  t_config :: task_config

record executor =
  hwnd_of :: hwnd
  available_windows :: "hwnd list"
  is_running :: bool
  current_team_id :: "team_id option"

text \<open>
  What one running \<open>execute_all_tasks\<close> sees of its surroundings: the coordinator
  object, which all executors share, and the wall clock at the point it has reached.
\<close>

record world =
  coord :: coordinator
  clock :: micros

datatype task_result =
    TaskSuccess micros pyval pyval micros micros
      \<comment> \<open>duration, role, team_id, start_time, end_time\<close>
  | TaskFailed string micros micros micros
      \<comment> \<open>error, duration, start_time, end_time\<close>

type_synonym task_results = "string \<rightharpoonup> task_result"

datatype exec_outcome =
    ExecRunning hwnd
  | ExecSuccess hwnd task_results micros
  | ExecFailed hwnd string micros

text \<open>
  What leaves \<open>execute_all_tasks\<close> instead of a return value: an exception that no
  \<open>except Exception\<close> caught, or the \<open>KeyError\<close> of the cleanup in the \<open>finally\<close> block.
\<close>

datatype propagated = Propagated raised | CleanupFailed py_error

definition new_executor :: "hwnd \<Rightarrow> hwnd list \<Rightarrow> executor" where
  "new_executor h avail =
     \<lparr>hwnd_of = h, available_windows = avail, is_running = False, current_team_id = None\<rparr>"

definition after_call :: "task_outcome \<Rightarrow> executor \<Rightarrow> world \<Rightarrow> executor \<times> world" where
  "after_call out ex w =
     (ex\<lparr>is_running := is_running ex \<and> \<not> stop_requested out\<rparr>,
      w\<lparr>clock := clock w + elapsed out\<rparr>)"

definition execute_solo_task ::
  "(task_call \<Rightarrow> task_outcome) \<Rightarrow> executor \<Rightarrow> world \<Rightarrow> (raised + pydict) \<times> executor \<times> world" where
  "execute_solo_task task_func ex w =
     (let out = task_func (CallSolo (hwnd_of ex)) in
      (case returned out of
         Inl e \<Rightarrow> Inl e
       | Inr r \<Rightarrow> set_item r ''role'' (PStr ''solo''),
       after_call out ex w))"

definition slice_to :: "'a list \<Rightarrow> int \<Rightarrow> 'a list" where
  \<comment> \<open>Python's \<open>xs[:k]\<close>: a negative \<open>k\<close> counts from the end.\<close>
  "slice_to xs k = (if 0 \<le> k then take (nat k) xs else take (length xs - nat (- k)) xs)"

definition get_teammates_for_task :: "executor \<Rightarrow> string \<Rightarrow> int \<Rightarrow> hwnd list" where
  "get_teammates_for_task ex tname tsize =
     (let teammates = filter (\<lambda>h. h \<noteq> hwnd_of ex) (available_windows ex)
      in if teammates \<noteq> [] then slice_to teammates (tsize - 1) else [])"

definition execute_team_task ::
  "string \<Rightarrow> (task_call \<Rightarrow> task_outcome) \<Rightarrow> task_config \<Rightarrow> executor \<Rightarrow> world
     \<Rightarrow> (raised + pydict) \<times> executor \<times> world" where
  "execute_team_task tname task_func cfg ex w =
     (let teammate_hwnds =
            get_teammates_for_task ex tname (case team_size cfg of None \<Rightarrow> 5 | Some n \<Rightarrow> n)
      in if teammate_hwnds = [] then execute_solo_task task_func ex w
         else
           (let (tid, c1) = create_team tname (hwnd_of ex) teammate_hwnds (clock w) (coord w);
                ex1 = ex\<lparr>current_team_id := Some tid\<rparr>;
                w1 = w\<lparr>coord := c1\<rparr>;
                role = get_team_role c1 tid (hwnd_of ex);
                (res, ex2, w2) =
                  (if role = LEADER \<or> role = MEMBER then
                     (let out = task_func (CallTeam role tid) in
                      (returned out, after_call out ex1 w1))
                   else
                     (case execute_solo_task task_func ex1 w1 of
                        (Inl e, ex', w') \<Rightarrow> (Inl e, ex', w')
                      | (Inr d, ex', w') \<Rightarrow> (Inr (Some d), ex', w')))
            in (case res of
                  Inl e \<Rightarrow> Inl e
                | Inr r \<Rightarrow>
                    (case set_item r ''role'' (PStr (role_value role)) of
                       Inl e \<Rightarrow> Inl e
                     | Inr d \<Rightarrow> set_item (Some d) ''team_id'' (PStr tid)),
                ex2, w2)))"

definition execute_single_task ::
  "task_spec \<Rightarrow> executor \<Rightarrow> world \<Rightarrow> (raised + pydict) \<times> executor \<times> world" where
  "execute_single_task t ex w =
     (if (case is_team_task (t_config t) of None \<Rightarrow> False | Some b \<Rightarrow> b)
      then execute_team_task (t_name t) (t_func t) (t_config t) ex w
      else execute_solo_task (t_func t) ex w)"

text \<open>
  The call that \<open>execute_single_task\<close> makes to the task function: with the role and
  the id of the team it has just created on the team path (the creator is the leader
  of its own team), with the window handle on every other path.
\<close>

definition forms_team :: "task_spec \<Rightarrow> executor \<Rightarrow> bool" where
  \<comment> \<open>the task is configured as a team task and the executor finds teammates for it\<close>
  "forms_team t ex \<longleftrightarrow>
     (case is_team_task (t_config t) of None \<Rightarrow> False | Some b \<Rightarrow> b)
     \<and> get_teammates_for_task ex (t_name t)
          (case team_size (t_config t) of None \<Rightarrow> 5 | Some n \<Rightarrow> n) \<noteq> []"

definition task_call_of :: "task_spec \<Rightarrow> executor \<Rightarrow> world \<Rightarrow> task_call" where
  "task_call_of t ex w =
     (if forms_team t ex
      then CallTeam LEADER (make_team_id (t_name t) (hwnd_of ex) (clock w))
      else CallSolo (hwnd_of ex))"

text \<open>
  One round of the loop of \<open>execute_all_tasks\<close>, after the check of \<open>is_running\<close>.
  The task runs after a reading of the clock. If it returns, or raises an \<open>Exception\<close>,
  the clock is read again and an entry is stored under the task's name; \<open>duration\<close>
  is the difference of the two readings, and the \<open>%H:%M:%S\<close> texts are represented by
  the readings themselves. Any other exception passes the \<open>except Exception\<close> clause:
  nothing is stored and the exception, the first component, leaves the loop.
\<close>

definition run_task ::
  "task_spec \<Rightarrow> task_results \<times> executor \<times> world
     \<Rightarrow> raised option \<times> task_results \<times> executor \<times> world" where
  "run_task t s =
     (case s of (results, ex, w) \<Rightarrow>
        (let start_time = clock w;
             (res, ex', w') = execute_single_task t ex w;
             end_time = clock w';
             duration = end_time - start_time
         in (case res of
               Inr d \<Rightarrow>
                 (None,
                  results(t_name t \<mapsto>
                    TaskSuccess duration
                      (case d ''role'' of None \<Rightarrow> PStr ''solo'' | Some v \<Rightarrow> v)
                      (case d ''team_id'' of None \<Rightarrow> PNone | Some v \<Rightarrow> v)
                      start_time end_time),
                  ex', w')
             | Inl (Exception m) \<Rightarrow>
                 (None, results(t_name t \<mapsto> TaskFailed m duration start_time end_time), ex', w')
             | Inl (Escaping n) \<Rightarrow> (Some (Escaping n), results, ex', w')
             | Inl (Fatal n) \<Rightarrow> (Some (Fatal n), results, ex', w'))))"

fun run_tasks ::
  "task_spec list \<Rightarrow> task_results \<times> executor \<times> world
     \<Rightarrow> raised option \<times> task_results \<times> executor \<times> world" where
  "run_tasks [] s = (None, s)"
| "run_tasks (t # ts) s =
     (if \<not> is_running (fst (snd s)) then (None, s)
      else (case run_task t s of
              (None, s') \<Rightarrow> run_tasks ts s'
            | (Some r, s') \<Rightarrow> (Some r, s')))"

text \<open>
  The \<open>finally\<close> block of \<open>execute_all_tasks\<close>. An exception of \<open>disband_team\<close> would
  replace the value the function was about to return and the exception that was
  about to leave it.
\<close>

definition finally_cleanup :: "executor \<Rightarrow> world \<Rightarrow> py_error option \<times> executor \<times> world" where
  "finally_cleanup ex w =
     (let ex' = ex\<lparr>is_running := False\<rparr> in
      case current_team_id ex' of
        None \<Rightarrow> (None, ex', w)
      | Some tid \<Rightarrow>
          if tid = [] then (None, ex', w)
          else (let (err, c') = disband_team tid (coord w) in (err, ex', w\<lparr>coord := c'\<rparr>)))"

definition leave :: "py_error option \<Rightarrow> raised + exec_outcome \<Rightarrow> propagated + exec_outcome" where
  \<comment> \<open>what leaves the function after the \<open>finally\<close> block, given what was pending before it\<close>
  "leave err pending =
     (case err of
        Some e \<Rightarrow> Inl (CleanupFailed e)
      | None \<Rightarrow> (case pending of Inl r \<Rightarrow> Inl (Propagated r) | Inr outcome \<Rightarrow> Inr outcome))"

text \<open>
  \<open>connect\<close> stands for \<open>self.helper.connect_to_window_async(self.hwnd)\<close> (what it
  raises, if it raises) and \<open>task_sequence\<close> for the list \<open>self._get_task_sequence()\<close>
  returns. The outer \<open>except Exception\<close> turns an \<open>Exception\<close> of the connection into
  a failed outcome; the tasks' own are caught inside the loop.
\<close>

definition execute_all_tasks ::
  "(hwnd \<Rightarrow> raised option) \<Rightarrow> task_spec list \<Rightarrow> executor \<Rightarrow> world
     \<Rightarrow> (propagated + exec_outcome) \<times> executor \<times> world" where
  "execute_all_tasks connect task_sequence ex w =
     (if is_running ex then (Inr (ExecRunning (hwnd_of ex)), ex, w)
      else
        (let ex1 = ex\<lparr>is_running := True\<rparr>;
             (pending, ex2, w2) =
               (case connect (hwnd_of ex1) of
                  Some (Exception m) \<Rightarrow> (Inr (ExecFailed (hwnd_of ex1) m (clock w)), ex1, w)
                | Some (Escaping n) \<Rightarrow> (Inl (Escaping n), ex1, w)
                | Some (Fatal n) \<Rightarrow> (Inl (Fatal n), ex1, w)
                | None \<Rightarrow>
                    (case run_tasks task_sequence (Map.empty, ex1, w) of
                       (None, results, ex', w') \<Rightarrow>
                         (Inr (ExecSuccess (hwnd_of ex') results (clock w')), ex', w')
                     | (Some r, results, ex', w') \<Rightarrow> (Inl r, ex', w')));
             (err, ex3, w3) = finally_cleanup ex2 w2
         in (leave err pending, ex3, w3)))"

definition bang_pai_name :: string where
  \<comment> \<open>the name of the one configured task, as the UTF-8 bytes of its four characters\<close>
  "bang_pai_name = [CHR 0xE5, CHR 0xB8, CHR 0xAE, CHR 0xE6, CHR 0xB4, CHR 0xBE,
                    CHR 0xE4, CHR 0xBB, CHR 0xBB, CHR 0xE5, CHR 0x8A, CHR 0xA1]"

definition get_task_sequence :: "(task_call \<Rightarrow> task_outcome) \<Rightarrow> task_spec list" where
  \<comment> \<open>\<open>solo_tasks + team_tasks + weekly_tasks\<close> with every other entry commented out\<close>
  "get_task_sequence bang_pai_ren_wu =
     [\<lparr>t_name = bang_pai_name, t_func = bang_pai_ren_wu,
       t_config = \<lparr>is_team_task = Some False, team_size = None\<rparr>\<rparr>] @ [] @ []"

section \<open>DailyTasks\<close>

text \<open>
  The surroundings of a run: \<open>construct_error\<close> is what the constructor
  \<open>WindowTaskExecutor(...)\<close> raises for a window, if it raises (a missing key of the
  window's dict, a failing ADB connection, \<open>os.chdir\<close>), \<open>connect_error\<close> what
  \<open>connect_to_window_async\<close> raises, and \<open>pipeline\<close> the task list of each window's
  executor.
\<close>

record environment =
  construct_error :: "hwnd \<Rightarrow> raised option"
  connect_error :: "hwnd \<Rightarrow> raised option"
  pipeline :: "hwnd \<Rightarrow> task_spec list"

datatype message_box = SelectWindowsFirst | TasksAlreadyRunning | RunFailed string

record daily_tasks =
  dt_world :: world
  dt_is_running :: bool
  window_executors :: "hwnd \<rightharpoonup> executor"
  message_boxes :: "message_box list"

type_synonym run_report = "(propagated + exec_outcome) list"

text \<open>
  The \<open>for\<close> loop of \<open>start_task\<close>: every window gets the handles of all selected
  windows, an executor is constructed and stored under its handle, and its
  \<open>execute_all_tasks()\<close> is scheduled. The first constructor that raises ends the loop.
\<close>

fun create_executors ::
  "environment \<Rightarrow> hwnd list \<Rightarrow> hwnd list \<Rightarrow> (hwnd \<rightharpoonup> executor) \<Rightarrow> executor list
     \<Rightarrow> (raised + executor list) \<times> (hwnd \<rightharpoonup> executor)" where
  "create_executors env all_hwnds [] execs tasks = (Inr tasks, execs)"
| "create_executors env all_hwnds (h # hs) execs tasks =
     (case construct_error env h of
        Some e \<Rightarrow> (Inl e, execs)
      | None \<Rightarrow>
          (let executor = new_executor h all_hwnds
           in create_executors env all_hwnds hs (execs(h \<mapsto> executor)) (tasks @ [executor])))"

subsection \<open>Executors running side by side\<close>

text \<open>
  \<open>asyncio.create_task\<close> makes every \<open>execute_all_tasks()\<close> a task of the event
  loop. The loop runs one task at a time and changes to another one only where the
  running one is suspended in an \<open>await\<close>: in the connection and in every task function.
  A scheduled \<open>execute_all_tasks()\<close> is therefore a coroutine with a position
  (\<open>Start\<close>, in the loop before the tasks \<open>ts\<close> that are left, before the \<open>finally\<close>
  block with what is pending, finished with what left it), its executor, its results so
  far and the wall clock as it has last read it. One step takes it to the next position;
  the steps of different coroutines interleave in any order. \<open>create_team\<close> and
  \<open>disband_team\<close> never wait for the lock, which no task holds across an \<open>await\<close>, so
  the coordinator operations of one step are not interleaved with those of another.
\<close>

datatype position =
    Start
  | Loop "task_spec list"
  | Cleanup "raised + exec_outcome"
  | Finished "propagated + exec_outcome"

record coroutine =
  co_exec :: executor
  co_results :: task_results
  co_clock :: micros

fun co_step ::
  "environment \<Rightarrow> position \<Rightarrow> coroutine \<Rightarrow> coordinator \<Rightarrow> position \<times> coroutine \<times> coordinator" where
  "co_step env Start co c =
     (if is_running (co_exec co) then (Finished (Inr (ExecRunning (hwnd_of (co_exec co)))), co, c)
      else
        (let co1 = co\<lparr>co_exec := (co_exec co)\<lparr>is_running := True\<rparr>, co_results := Map.empty\<rparr>;
             h = hwnd_of (co_exec co)
         in (case connect_error env h of
               Some (Exception m) \<Rightarrow> (Cleanup (Inr (ExecFailed h m (co_clock co))), co1, c)
             | Some (Escaping n) \<Rightarrow> (Cleanup (Inl (Escaping n)), co1, c)
             | Some (Fatal n) \<Rightarrow> (Cleanup (Inl (Fatal n)), co1, c)
             | None \<Rightarrow> (Loop (pipeline env h), co1, c))))"
| "co_step env (Loop []) co c =
     (Cleanup (Inr (ExecSuccess (hwnd_of (co_exec co)) (co_results co) (co_clock co))), co, c)"
| "co_step env (Loop (t # ts)) co c =
     (if \<not> is_running (co_exec co)
      then (Cleanup (Inr (ExecSuccess (hwnd_of (co_exec co)) (co_results co) (co_clock co))), co, c)
      else
        (case run_task t (co_results co, co_exec co, \<lparr>coord = c, clock = co_clock co\<rparr>) of
           (esc, results, ex', w') \<Rightarrow>
             ((case esc of None \<Rightarrow> Loop ts | Some r \<Rightarrow> Cleanup (Inl r)),
              \<lparr>co_exec = ex', co_results = results, co_clock = clock w'\<rparr>, coord w')))"
| "co_step env (Cleanup pending) co c =
     (case finally_cleanup (co_exec co) \<lparr>coord = c, clock = co_clock co\<rparr> of
        (err, ex', w') \<Rightarrow> (Finished (leave err pending), co\<lparr>co_exec := ex'\<rparr>, coord w'))"
| "co_step env (Finished r) co c = (Finished r, co, c)"

text \<open>
  The event loop with the scheduled coroutines, the coordinator they share, and the
  \<open>KeyboardInterrupt\<close> or \<open>SystemExit\<close> that has stopped the loop, if one has.
\<close>

record event_loop =
  coroutines :: "(position \<times> coroutine) list"
  shared :: coordinator
  stopped :: "string option"

fun fatal_of :: "position \<Rightarrow> string option" where
  "fatal_of (Finished (Inl (Propagated (Fatal n)))) = Some n"
| "fatal_of p = None"

definition loop_step :: "environment \<Rightarrow> nat \<Rightarrow> event_loop \<Rightarrow> event_loop" where
  \<comment> \<open>the loop lets coroutine \<open>i\<close> take its next step\<close>
  "loop_step env i el =
     (if stopped el \<noteq> None \<or> \<not> i < length (coroutines el) then el
      else
        (case co_step env (fst (coroutines el ! i)) (snd (coroutines el ! i)) (shared el) of
           (p', co', c') \<Rightarrow>
             el\<lparr>coroutines := (coroutines el)[i := (p', co')], shared := c', stopped := fatal_of p'\<rparr>))"

fun run_schedule :: "environment \<Rightarrow> nat list \<Rightarrow> event_loop \<Rightarrow> event_loop" where
  "run_schedule env [] el = el"
| "run_schedule env (i # sched) el = run_schedule env sched (loop_step env i el)"

text \<open>
  \<open>await asyncio.gather(*tasks, return_exceptions=True)\<close> returns when every task is
  done, with the value each one returned, or the exception that left it, at the task's
  position in the list.
\<close>

fun collect :: "(position \<times> coroutine) list \<Rightarrow> run_report option" where
  "collect [] = Some []"
| "collect ((Finished r, co) # rest) = (case collect rest of None \<Rightarrow> None | Some rs \<Rightarrow> Some (r # rs))"
| "collect ((p, co) # rest) = None"

datatype gather_result =
    ConstructorRaised raised
  | Gathered run_report
  | LoopStopped string
  | Waiting

definition store_executors :: "executor list \<Rightarrow> (hwnd \<rightharpoonup> executor) \<Rightarrow> (hwnd \<rightharpoonup> executor)" where
  "store_executors exs execs = foldl (\<lambda>m ex. m(hwnd_of ex \<mapsto> ex)) execs exs"

text \<open>
  The body of the \<open>try\<close> of \<open>start_task\<close>, for the order \<open>sched\<close> in which the event
  loop lets the coroutines step. \<open>Gathered\<close> carries the list that \<open>gather\<close> produces,
  which \<open>start_task\<close> does not bind to anything. \<open>Waiting\<close> says that after \<open>sched\<close> some
  coroutine is not done, so that \<open>gather\<close> has not returned yet. Executors constructed
  before a constructor raised are scheduled but never awaited; what they do after
  \<open>start_task\<close> has returned is not part of this function.
\<close>

definition initial_loop :: "executor list \<Rightarrow> world \<Rightarrow> event_loop" where
  \<comment> \<open>every scheduled coroutine at its start, at the time of the \<open>gather\<close> call\<close>
  "initial_loop tasks w =
     \<lparr>coroutines =
        map (\<lambda>ex. (Start, \<lparr>co_exec = ex, co_results = Map.empty, co_clock = clock w\<rparr>)) tasks,
      shared = coord w, stopped = None\<rparr>"

definition launch_and_gather ::
  "environment \<Rightarrow> nat list \<Rightarrow> hwnd list \<Rightarrow> daily_tasks \<Rightarrow> gather_result \<times> daily_tasks" where
  "launch_and_gather env sched selected_windows d =
     (case create_executors env selected_windows selected_windows (window_executors d) [] of
        (Inl e, execs) \<Rightarrow> (ConstructorRaised e, d\<lparr>window_executors := execs\<rparr>)
      | (Inr tasks, execs) \<Rightarrow>
          (let el = run_schedule env sched (initial_loop tasks (dt_world d));
               d' = d\<lparr>dt_world :=
                        \<lparr>coord = shared el,
                         clock = foldl max (clock (dt_world d)) (map (\<lambda>pc. co_clock (snd pc)) (coroutines el))\<rparr>,
                      window_executors :=
                        store_executors (map (\<lambda>pc. co_exec (snd pc)) (coroutines el)) execs\<rparr>
           in (case stopped el of
                 Some n \<Rightarrow> (LoopStopped n, d')
               | None \<Rightarrow>
                   (case collect (coroutines el) of
                      Some outs \<Rightarrow> (Gathered outs, d')
                    | None \<Rightarrow> (Waiting, d')))))"

text \<open>
  How a call of \<open>start_task\<close> ends: it returns (always \<open>None\<close>: no \<open>return\<close> of the
  function has a value), or an exception outside \<open>Exception\<close> leaves it after the
  \<open>finally\<close> block, or the event loop was stopped while it waited, or, after \<open>sched\<close>,
  it is still suspended in \<open>gather\<close>.
\<close>

datatype start_result =
    Returned "run_report option"
  | RaisedOut raised
  | NeverResumed string
  | Suspended

definition start_task ::
  "environment \<Rightarrow> nat list \<Rightarrow> hwnd list \<Rightarrow> daily_tasks \<Rightarrow> start_result \<times> daily_tasks" where
  "start_task env sched selected_windows d =
     (if selected_windows = [] then
        (Returned None, d\<lparr>message_boxes := message_boxes d @ [SelectWindowsFirst]\<rparr>)
      else if dt_is_running d then
        (Returned None, d\<lparr>message_boxes := message_boxes d @ [TasksAlreadyRunning]\<rparr>)
      else
        (case launch_and_gather env sched selected_windows (d\<lparr>dt_is_running := True\<rparr>) of
           (ConstructorRaised (Exception m), d') \<Rightarrow>
             (Returned None,
              d'\<lparr>message_boxes := message_boxes d' @ [RunFailed m], dt_is_running := False\<rparr>)
         | (ConstructorRaised (Escaping n), d') \<Rightarrow> (RaisedOut (Escaping n), d'\<lparr>dt_is_running := False\<rparr>)
         | (ConstructorRaised (Fatal n), d') \<Rightarrow> (RaisedOut (Fatal n), d'\<lparr>dt_is_running := False\<rparr>)
         | (Gathered outs, d') \<Rightarrow> (Returned None, d'\<lparr>dt_is_running := False\<rparr>)
         | (LoopStopped n, d') \<Rightarrow> (NeverResumed n, d')
         | (Waiting, d') \<Rightarrow> (Suspended, d')))"

definition new_daily_tasks :: "micros \<Rightarrow> daily_tasks" where
  "new_daily_tasks t =
     \<lparr>dt_world = \<lparr>coord = new_coordinator, clock = t\<rparr>, dt_is_running = False,
      window_executors = Map.empty, message_boxes = []\<rparr>"

fun outcome_hwnd :: "exec_outcome \<Rightarrow> hwnd" where
  "outcome_hwnd (ExecRunning h) = h"
| "outcome_hwnd (ExecSuccess h results t) = h"
| "outcome_hwnd (ExecFailed h e t) = h"

text \<open>
  The number of steps a coroutine has still to take, and two conditions on a run:
  the loop lets every coroutine step as often as that, and no opaque call raises
  \<open>KeyboardInterrupt\<close> or \<open>SystemExit\<close>.
\<close>

fun steps_left :: "environment \<Rightarrow> position \<Rightarrow> coroutine \<Rightarrow> nat" where
  "steps_left env Start co = length (pipeline env (hwnd_of (co_exec co))) + 3"
| "steps_left env (Loop ts) co = length ts + 2"
| "steps_left env (Cleanup pending) co = 1"
| "steps_left env (Finished r) co = 0"

definition lets_all_finish :: "environment \<Rightarrow> hwnd list \<Rightarrow> nat list \<Rightarrow> bool" where
  "lets_all_finish env selected_windows sched \<longleftrightarrow>
     (\<forall>i < length selected_windows.
        length (pipeline env (selected_windows ! i)) + 3 \<le> count_list sched i)"

definition never_fatal :: "environment \<Rightarrow> hwnd list \<Rightarrow> bool" where
  "never_fatal env selected_windows \<longleftrightarrow>
     (\<forall>h \<in> set selected_windows.
        (\<forall>n. connect_error env h \<noteq> Some (Fatal n))
        \<and> (\<forall>t \<in> set (pipeline env h). \<forall>call n. returned (t_func t call) \<noteq> Inl (Fatal n)))"

text \<open>
  What holds of a coroutine at every position: an outcome it is about to return, or
  has returned, carries the handle of its own window. And, when no call raises
  \<open>KeyboardInterrupt\<close> or \<open>SystemExit\<close>: the tasks it has left are tasks of its
  pipeline and nothing of that kind is pending.
\<close>

fun pos_hwnd :: "position \<Rightarrow> coroutine \<Rightarrow> bool" where
  "pos_hwnd (Cleanup (Inr outcome)) co = (outcome_hwnd outcome = hwnd_of (co_exec co))"
| "pos_hwnd (Finished (Inr outcome)) co = (outcome_hwnd outcome = hwnd_of (co_exec co))"
| "pos_hwnd p co = True"

fun pos_safe :: "environment \<Rightarrow> position \<Rightarrow> coroutine \<Rightarrow> bool" where
  "pos_safe env (Loop ts) co = (set ts \<subseteq> set (pipeline env (hwnd_of (co_exec co))))"
| "pos_safe env (Cleanup (Inl (Fatal n))) co = False"
| "pos_safe env (Finished (Inl (Propagated (Fatal n)))) co = False"
| "pos_safe env p co = True"

text \<open>A coroutine that the loop lets step \<open>n\<close> times in a row.\<close>

fun co_steps ::
  "environment \<Rightarrow> nat \<Rightarrow> position \<times> coroutine \<times> coordinator \<Rightarrow> position \<times> coroutine \<times> coordinator" where
  "co_steps env 0 s = s"
| "co_steps env (Suc n) s = co_steps env n (co_step env (fst s) (fst (snd s)) (snd (snd s)))"

text \<open>
  Where a coroutine ends that has left the loop of its tasks in the state \<open>s\<close>, with
  the exception \<open>esc\<close> if one left the loop, and has gone through the \<open>finally\<close> block.
\<close>

definition after_loop ::
  "raised option \<times> task_results \<times> executor \<times> world \<Rightarrow> position \<times> coroutine \<times> coordinator" where
  "after_loop s =
     (case s of (esc, results, ex, w) \<Rightarrow>
        (Finished (leave (fst (finally_cleanup ex w))
                     (case esc of
                        None \<Rightarrow> Inr (ExecSuccess (hwnd_of ex) results (clock w))
                      | Some r \<Rightarrow> Inl r)),
         \<lparr>co_exec = fst (snd (finally_cleanup ex w)), co_results = results, co_clock = clock w\<rparr>,
         coord (snd (snd (finally_cleanup ex w)))))"

section \<open>GameAutomationManager\<close>

text \<open>
  Every submitted task is an \<open>asyncio.Task\<close> running \<open>_run_task_with_limit\<close>: it is
  pending until \<open>async with self.semaphore\<close> lets it in, runs \<open>task_func\<close> while it
  holds the permit, and gives the permit back when the block is left, by a return, an
  exception or a cancellation. \<open>asyncio.Semaphore\<close> is the counter of its documentation:
  \<open>acquire\<close> succeeds only while the counter is positive and decrements it, \<open>release\<close>
  increments it, and a negative initial value raises \<open>ValueError\<close>.
\<close>

datatype task_phase = Pending | Running | Done

record manager =
  max_concurrent :: int
  semaphore :: nat
  tasks :: "(string \<times> task_phase) list"
  active_tasks :: "string \<rightharpoonup> nat"
  task_results :: "string \<rightharpoonup> (py_error + pyval)"
  task_counter :: nat

definition new_manager :: "int \<Rightarrow> py_error + manager" where
  "new_manager k =
     (if k < 0 then Inl (ValueError ''Semaphore initial value must be >= 0'')
      else Inr \<lparr>max_concurrent = k, semaphore = nat k, tasks = [], active_tasks = Map.empty,
                task_results = Map.empty, task_counter = 0\<rparr>)"

definition submit_task :: "string option \<Rightarrow> manager \<Rightarrow> string \<times> manager" where
  "submit_task name m =
     (let counter = task_counter m + 1;
          default_id = ''task_'' @ str_int (int counter);
          task_id = (case name of None \<Rightarrow> default_id | Some n \<Rightarrow> if n = [] then default_id else n)
      in (task_id,
          m\<lparr>task_counter := counter,
            active_tasks := (active_tasks m)(task_id \<mapsto> length (tasks m)),
            tasks := tasks m @ [(task_id, Pending)]\<rparr>))"

definition task_done_callback :: "string \<Rightarrow> py_error + pyval \<Rightarrow> manager \<Rightarrow> manager" where
  "task_done_callback task_id outcome m =
     m\<lparr>task_results := (task_results m)(task_id \<mapsto> outcome),
       active_tasks := (active_tasks m)(task_id := None)\<rparr>"

text \<open>
  What can happen to a manager, one event at a time: a submission, task \<open>i\<close> entering
  the \<open>async with\<close> block, task \<open>i\<close> leaving it with the outcome of \<open>task_func\<close>, and
  task \<open>i\<close> being cancelled (\<open>shutdown\<close>). An event that cannot happen in the state gives
  \<open>None\<close>.
\<close>

datatype manager_event =
    Submit "string option"
  | Acquire nat
  | Finish nat "py_error + pyval"
  | Cancel nat

fun manager_step :: "manager_event \<Rightarrow> manager \<Rightarrow> manager option" where
  "manager_step (Submit name) m = Some (snd (submit_task name m))"
| "manager_step (Acquire i) m =
     (if i < length (tasks m) \<and> snd (tasks m ! i) = Pending \<and> 0 < semaphore m
      then Some (m\<lparr>semaphore := semaphore m - 1,
                   tasks := (tasks m)[i := (fst (tasks m ! i), Running)]\<rparr>)
      else None)"
| "manager_step (Finish i outcome) m =
     (if i < length (tasks m) \<and> snd (tasks m ! i) = Running
      then Some (task_done_callback (fst (tasks m ! i)) outcome
                   (m\<lparr>semaphore := semaphore m + 1,
                      tasks := (tasks m)[i := (fst (tasks m ! i), Done)]\<rparr>))
      else None)"
| "manager_step (Cancel i) m =
     (if i < length (tasks m) \<and> snd (tasks m ! i) = Pending
      then Some (m\<lparr>tasks := (tasks m)[i := (fst (tasks m ! i), Done)]\<rparr>)
      else if i < length (tasks m) \<and> snd (tasks m ! i) = Running
      then Some (m\<lparr>semaphore := semaphore m + 1,
                   tasks := (tasks m)[i := (fst (tasks m ! i), Done)]\<rparr>)
      else None)"

fun run_events :: "manager_event list \<Rightarrow> manager \<Rightarrow> manager option" where
  "run_events [] m = Some m"
| "run_events (e # es) m =
     (case manager_step e m of None \<Rightarrow> None | Some m' \<Rightarrow> run_events es m')"

definition running_count :: "manager \<Rightarrow> nat" where
  "running_count m = length (filter (\<lambda>t. snd t = Running) (tasks m))"

text \<open>Every task inside the \<open>async with\<close> block accounts for one permit taken.\<close>

definition permits_inv :: "nat \<Rightarrow> manager \<Rightarrow> bool" where
  "permits_inv k m \<longleftrightarrow> semaphore m + running_count m = k"

section \<open>Team ids\<close>

lemma digit_char_inj: "a < 10 \<Longrightarrow> b < 10 \<Longrightarrow> digit_char a = digit_char b \<Longrightarrow> a = b"
  by (simp add: digit_char_def)

lemma digit_char_not_minus: "d < 10 \<Longrightarrow> digit_char d \<noteq> CHR ''-''"
  by (simp add: digit_char_def char_of_eq_iff take_bit_eq_mod)

lemma str_nat_nonempty: "str_nat n \<noteq> []"
  by (subst str_nat.simps) simp

lemma str_nat_len1: "length (str_nat n) = 1 \<longleftrightarrow> n < 10"
  using str_nat_nonempty[of "n div 10"]
  by (subst str_nat.simps) simp

lemma str_nat_inj: "str_nat n = str_nat m \<Longrightarrow> n = m"
proof (induction n arbitrary: m rule: str_nat.induct)
  case (1 n)
  have len: "(n < 10) = (m < 10)"
    using "1.prems" str_nat_len1[of n] str_nat_len1[of m] by simp
  show ?case
  proof (cases "n < 10")
    case True
    with len have m: "m < 10" by simp
    from "1.prems" True m have "digit_char n = digit_char m"
      by (simp add: str_nat.simps[of n] str_nat.simps[of m])
    with True m show ?thesis by (simp add: digit_char_inj)
  next
    case False
    with len have m: "\<not> m < 10" by simp
    from "1.prems" False m
    have e: "str_nat (n div 10) @ [digit_char (n mod 10)] = str_nat (m div 10) @ [digit_char (m mod 10)]"
      by (simp add: str_nat.simps[of n] str_nat.simps[of m])
    then have e1: "str_nat (n div 10) = str_nat (m div 10)"
      and e2: "digit_char (n mod 10) = digit_char (m mod 10)"
      by simp_all
    from "1.IH"[OF False e1] have d: "n div 10 = m div 10" .
    from e2 have r: "n mod 10 = m mod 10" by (intro digit_char_inj) simp_all
    from d r show ?thesis by (metis div_mult_mod_eq)
  qed
qed

lemma str_nat_hd: "hd (str_nat n) \<noteq> CHR ''-''"
proof (induction n rule: str_nat.induct)
  case (1 n)
  show ?case
  proof (cases "n < 10")
    case True
    then show ?thesis by (simp add: str_nat.simps[of n] digit_char_not_minus)
  next
    case False
    with 1 show ?thesis by (simp add: str_nat.simps[of n] str_nat_nonempty)
  qed
qed

lemma str_nat_no_sign: "str_nat n \<noteq> CHR ''-'' # s"
proof
  assume "str_nat n = CHR ''-'' # s"
  then have "hd (str_nat n) = CHR ''-''" by simp
  with str_nat_hd show False by blast
qed

lemma str_int_inj: "str_int i = str_int j \<Longrightarrow> i = j"
proof -
  assume e: "str_int i = str_int j"
  show ?thesis
  proof (cases "i < 0"; cases "j < 0")
    assume "i < 0" "j < 0"
    with e have "str_nat (nat (- i)) = str_nat (nat (- j))" by (simp add: str_int_def)
    then have "nat (- i) = nat (- j)" by (rule str_nat_inj)
    with \<open>i < 0\<close> \<open>j < 0\<close> show ?thesis by simp
  next
    assume "i < 0" "\<not> j < 0"
    with e str_nat_no_sign[of "nat j" "str_nat (nat (- i))"] show ?thesis
      by (auto simp: str_int_def)
  next
    assume "\<not> i < 0" "j < 0"
    with e str_nat_no_sign[of "nat i" "str_nat (nat (- j))"] show ?thesis
      by (auto simp: str_int_def)
  next
    assume "\<not> i < 0" "\<not> j < 0"
    with e have "str_nat (nat i) = str_nat (nat j)" by (simp add: str_int_def)
    then have "nat i = nat j" by (rule str_nat_inj)
    with \<open>\<not> i < 0\<close> \<open>\<not> j < 0\<close> show ?thesis by simp
  qed
qed

lemma make_team_id_same_task_leader:
  "make_team_id tname ldr a = make_team_id tname ldr b \<longleftrightarrow> whole_seconds a = whole_seconds b"
  by (auto simp: make_team_id_def dest: str_int_inj)

lemma make_team_id_nonempty: "make_team_id tname ldr a \<noteq> []"
  by (simp add: make_team_id_def)

lemmas team_id_eval =
  make_team_id_def str_int_def whole_seconds_def str_nat.simps digit_char_def char_of_eq_iff

section \<open>The coordinator's registry\<close>

lemma fst_create_team [simp]: "fst (create_team tname ldr mems t c) = make_team_id tname ldr t"
  by (simp add: create_team_def Let_def)

lemma team_tasks_create_team:
  "team_tasks (snd (create_team tname ldr mems t c)) =
     (team_tasks c)(make_team_id tname ldr t \<mapsto>
        \<lparr>task_name = tname, leader = ldr, members = mems, status = forming, created_at = t\<rparr>)"
  by (simp add: create_team_def Let_def)

lemma team_members_create_team:
  "team_members (snd (create_team tname ldr mems t c)) =
     (team_members c)(make_team_id tname ldr t \<mapsto> ldr # mems)"
  by (simp add: create_team_def Let_def)

lemma team_events_create_team:
  "team_events (snd (create_team tname ldr mems t c)) =
     (team_events c)(make_team_id tname ldr t \<mapsto> False)"
  by (simp add: create_team_def Let_def)

lemmas create_team_simps = team_tasks_create_team team_members_create_team team_events_create_team

lemma coord_inv_new: "coord_inv new_coordinator"
  by (simp add: coord_inv_def new_coordinator_def)

lemma coord_inv_create_team: "coord_inv c \<Longrightarrow> coord_inv (snd (create_team tname ldr mems t c))"
  by (simp add: coord_inv_def create_team_simps)

lemma set_team_ready_unknown: "team_tasks c tid = None \<Longrightarrow> set_team_ready tid c = (None, c)"
  by (simp add: set_team_ready_def)

lemma set_team_ready_known:
  assumes "coord_inv c" and "team_tasks c tid = Some info"
  shows "set_team_ready tid c =
           (None, c\<lparr>team_tasks := (team_tasks c)(tid \<mapsto> info\<lparr>status := ready\<rparr>),
                   team_events := (team_events c)(tid \<mapsto> True)\<rparr>)"
proof -
  from assms have "tid \<in> dom (team_events c)" by (auto simp: coord_inv_def)
  then obtain b where "team_events c tid = Some b" by blast
  with assms(2) show ?thesis by (simp add: set_team_ready_def Let_def)
qed

lemma coord_inv_set_team_ready: "coord_inv c \<Longrightarrow> coord_inv (snd (set_team_ready tid c))"
proof (cases "team_tasks c tid")
  case None
  assume "coord_inv c"
  with None show ?thesis by (simp add: set_team_ready_unknown)
next
  case (Some info)
  assume inv: "coord_inv c"
  from inv Some have "insert tid (dom (team_tasks c)) = dom (team_tasks c)" by auto
  with inv show ?thesis
    by (simp add: set_team_ready_known[OF inv Some] coord_inv_def)
qed

lemma disband_team_unknown: "team_tasks c tid = None \<Longrightarrow> disband_team tid c = (None, c)"
  by (simp add: disband_team_def dom_def)

lemma disband_team_known:
  assumes "coord_inv c" and "team_tasks c tid = Some info"
  shows "disband_team tid c =
           (None, c\<lparr>team_tasks := (team_tasks c)(tid := None),
                   team_members := (team_members c)(tid := None),
                   team_events := (team_events c)(tid := None)\<rparr>)"
proof -
  from assms have "tid \<in> dom (team_tasks c)" "tid \<in> dom (team_members c)" "tid \<in> dom (team_events c)"
    by (auto simp: coord_inv_def)
  then show ?thesis by (simp add: disband_team_def Let_def)
qed

lemma coord_inv_disband_team: "coord_inv c \<Longrightarrow> coord_inv (snd (disband_team tid c))"
proof (cases "team_tasks c tid")
  case None
  assume "coord_inv c"
  with None show ?thesis by (simp add: disband_team_unknown)
next
  case (Some info)
  assume inv: "coord_inv c"
  then show ?thesis
    by (simp add: disband_team_known[OF inv Some] coord_inv_def)
qed

lemma disband_team_ok: "coord_inv c \<Longrightarrow> fst (disband_team tid c) = None"
  by (cases "team_tasks c tid") (simp_all add: disband_team_unknown disband_team_known)

lemma disband_team_absent:
  assumes "coord_inv c"
  shows "team_tasks (snd (disband_team tid c)) tid = None"
    and "team_members (snd (disband_team tid c)) tid = None"
    and "team_events (snd (disband_team tid c)) tid = None"
proof -
  have "team_tasks (snd (disband_team tid c)) tid = None
      \<and> team_members (snd (disband_team tid c)) tid = None
      \<and> team_events (snd (disband_team tid c)) tid = None"
  proof (cases "team_tasks c tid")
    case None
    with assms have "tid \<notin> dom (team_members c)" "tid \<notin> dom (team_events c)"
      by (auto simp: coord_inv_def)
    with None show ?thesis by (auto simp: disband_team_unknown)
  next
    case (Some info)
    show ?thesis by (simp add: disband_team_known[OF assms Some])
  qed
  then show "team_tasks (snd (disband_team tid c)) tid = None"
    and "team_members (snd (disband_team tid c)) tid = None"
    and "team_events (snd (disband_team tid c)) tid = None" by simp_all
qed

lemma coord_inv_exec_op: "coord_inv c \<Longrightarrow> coord_inv (exec_op op c)"
  by (cases op) (simp_all add: coord_inv_create_team coord_inv_set_team_ready coord_inv_disband_team)

lemma coord_inv_run_ops: "coord_inv c \<Longrightarrow> coord_inv (run_ops ops c)"
  by (induction ops arbitrary: c) (simp_all add: coord_inv_exec_op)

lemma coord_inv_reachable: "coord_inv (run_ops ops new_coordinator)"
  by (rule coord_inv_run_ops[OF coord_inv_new])


lemma run_ops_append: "run_ops (xs @ ys) c = run_ops ys (run_ops xs c)"
  by (induction xs arbitrary: c) simp_all

lemma status_exec_op:
  assumes "issued_id op \<noteq> Some tid"
  shows "team_status_of (exec_op op c) tid = team_status_of c tid
       \<or> team_status_of (exec_op op c) tid = None
       \<or> (team_status_of c tid \<noteq> None \<and> team_status_of (exec_op op c) tid = Some ready)"
proof (cases op)
  case (CreateTeam tname ldr mems t)
  with assms show ?thesis by (simp add: team_status_of_def create_team_simps)
next
  case (SetTeamReady tid')
  then show ?thesis
    by (auto simp: team_status_of_def set_team_ready_def Let_def split: option.splits)
next
  case (DisbandTeam tid')
  then show ?thesis
    by (auto simp: team_status_of_def disband_team_def Let_def)
qed

lemma status_run_ops:
  assumes "\<forall>op \<in> set ops. issued_id op \<noteq> Some tid"
  shows "(team_status_of c tid = Some ready \<longrightarrow>
            team_status_of (run_ops ops c) tid = Some ready \<or> team_status_of (run_ops ops c) tid = None)
       \<and> (team_status_of c tid = None \<longrightarrow> team_status_of (run_ops ops c) tid = None)"
  using assms
proof (induction ops arbitrary: c)
  case Nil
  then show ?case by simp
next
  case (Cons op ops)
  from Cons.prems have op: "issued_id op \<noteq> Some tid"
    and rest: "\<forall>op \<in> set ops. issued_id op \<noteq> Some tid" by simp_all
  from status_exec_op[OF op, of c] Cons.IH[OF rest, of "exec_op op c"]
  show ?case by auto
qed


section \<open>Claims about the coordinator\<close>

text \<open>
  C1, as the code has it. The id of a team is built from the task name, the leader's
  handle and the clock reading truncated to whole seconds, and from nothing else: two
  \<open>create_team\<close> calls with the same task name and the same leader return distinct ids
  exactly when their clock readings lie in different whole seconds. The coordinator
  states in which the two calls run are arbitrary, so this covers a second call that
  runs after, or interleaved with, the first.
\<close>

theorem create_team_ids_distinct_iff:
  "fst (create_team tname ldr mems1 t1 c1) \<noteq> fst (create_team tname ldr mems2 t2 c2)
     \<longleftrightarrow> whole_seconds t1 \<noteq> whole_seconds t2"
  by (simp add: make_team_id_same_task_leader)

theorem create_team_ids_distinct_iff_witness:
  "fst (create_team ''tianting_run'' 1001 [1002] 5000000 new_coordinator)
     \<noteq> fst (create_team ''tianting_run'' 1001 [1002] 6000000
              (snd (create_team ''tianting_run'' 1001 [1002] 5000000 new_coordinator)))"
  using create_team_ids_distinct_iff [of "''tianting_run''" 1001 "[1002]" 5000000 new_coordinator
      "[1002]" 6000000 "snd (create_team ''tianting_run'' 1001 [1002] 5000000 new_coordinator)"]
  by (simp add: whole_seconds_def)

text \<open>
  C1 as stated fails: two calls for the same task and leader whose clock readings are
  0.4 seconds apart, within one wall-clock second, return the same id.
\<close>

theorem create_team_same_second_counterexample:
  "fst (create_team ''tianting_run'' 1001 [1002] 5000000 new_coordinator)
     = fst (create_team ''tianting_run'' 1001 [1002] 5400000
              (snd (create_team ''tianting_run'' 1001 [1002] 5000000 new_coordinator)))
   \<and> fst (create_team ''tianting_run'' 1001 [1002] 5000000 new_coordinator) = ''tianting_run_1001_5''"
  by (simp add: team_id_eval)

text \<open>
  C3 at an unknown and at a disbanded id: \<open>wait_for_team_ready\<close> raises \<open>KeyError\<close>
  whatever the timeout is and whether or not anybody would fire a signal, where the
  claim promises a boolean and no exception.
\<close>

theorem wait_for_team_ready_unknown_raises:
  "wait_for_team_ready new_coordinator ''tianting_run_1001_5'' 60 fires_after
     = Inl (KeyError ''tianting_run_1001_5'')
   \<and> wait_for_team_ready
       (snd (disband_team ''tianting_run_1001_5''
              (snd (create_team ''tianting_run'' 1001 [1002] 5000000 new_coordinator))))
       ''tianting_run_1001_5'' 60 fires_after
     = Inl (KeyError ''tianting_run_1001_5'')"
proof -
  have id: "make_team_id ''tianting_run'' 1001 5000000 = ''tianting_run_1001_5''"
    by (simp add: team_id_eval)
  have inv: "coord_inv (snd (create_team ''tianting_run'' 1001 [1002] 5000000 new_coordinator))"
    by (rule coord_inv_create_team[OF coord_inv_new])
  show ?thesis
    using disband_team_absent(3)[OF inv, of "''tianting_run_1001_5''"]
    by (simp add: wait_for_team_ready_def new_coordinator_def)
qed

text \<open>
  C7, as the code has it. In every state \<open>c\<close> that a sequence of coordinator operations
  reaches from the empty registry: a created record starts \<open>forming\<close> with an unfired
  signal; \<open>set_team_ready\<close> on a registered id makes it \<open>ready\<close> and fires the signal, and
  doing it again changes nothing; on an unknown id it changes nothing; \<open>disband_team\<close>
  removes the record; and along any further operations among which no \<open>create_team\<close>
  issues the id \<open>tid\<close> again, a \<open>ready\<close> record under \<open>tid\<close> stays \<open>ready\<close> until it is
  removed and an absent one stays absent.
\<close>

theorem team_status_monotonic:
  fixes pre ops :: "coord_op list"
  defines "c \<equiv> run_ops pre new_coordinator"
  shows
    "team_status_of (exec_op (CreateTeam tname ldr mems t) c) (make_team_id tname ldr t) = Some forming
     \<and> team_events (exec_op (CreateTeam tname ldr mems t) c) (make_team_id tname ldr t) = Some False
     \<and> (team_tasks c tid \<noteq> None \<longrightarrow>
          fst (set_team_ready tid c) = None
          \<and> team_status_of (exec_op (SetTeamReady tid) c) tid = Some ready
          \<and> team_events (exec_op (SetTeamReady tid) c) tid = Some True
          \<and> exec_op (SetTeamReady tid) (exec_op (SetTeamReady tid) c) = exec_op (SetTeamReady tid) c)
     \<and> (team_tasks c tid = None \<longrightarrow> set_team_ready tid c = (None, c))
     \<and> team_status_of (exec_op (DisbandTeam tid) c) tid = None
     \<and> ((\<forall>op \<in> set ops. issued_id op \<noteq> Some tid) \<longrightarrow>
          (team_status_of c tid = Some ready \<longrightarrow>
             team_status_of (run_ops ops c) tid = Some ready \<or> team_status_of (run_ops ops c) tid = None)
          \<and> (team_status_of c tid = None \<longrightarrow> team_status_of (run_ops ops c) tid = None))"
proof -
  have inv: "coord_inv c" unfolding c_def by (rule coord_inv_reachable)
  have A: "team_status_of (exec_op (CreateTeam tname ldr mems t) c) (make_team_id tname ldr t) = Some forming"
    by (simp add: team_status_of_def create_team_simps)
  have B: "team_events (exec_op (CreateTeam tname ldr mems t) c) (make_team_id tname ldr t) = Some False"
    by (simp add: create_team_simps)
  have C: "fst (set_team_ready tid c) = None
          \<and> team_status_of (exec_op (SetTeamReady tid) c) tid = Some ready
          \<and> team_events (exec_op (SetTeamReady tid) c) tid = Some True
          \<and> exec_op (SetTeamReady tid) (exec_op (SetTeamReady tid) c) = exec_op (SetTeamReady tid) c"
    if "team_tasks c tid \<noteq> None"
  proof -
    from that obtain info where info: "team_tasks c tid = Some info" by blast
    let ?c' = "c\<lparr>team_tasks := (team_tasks c)(tid \<mapsto> info\<lparr>status := ready\<rparr>),
                  team_events := (team_events c)(tid \<mapsto> True)\<rparr>"
    have s1: "set_team_ready tid c = (None, ?c')" by (rule set_team_ready_known[OF inv info])
    have inv': "coord_inv ?c'" using coord_inv_set_team_ready[OF inv, of tid] s1 by simp
    have info': "team_tasks ?c' tid = Some (info\<lparr>status := ready\<rparr>)" by simp
    have s2: "set_team_ready tid ?c' = (None, ?c')"
      by (simp add: set_team_ready_known[OF inv' info'])
    from s1 s2 show ?thesis by (simp add: team_status_of_def)
  qed
  have D: "set_team_ready tid c = (None, c)" if "team_tasks c tid = None"
    using that by (rule set_team_ready_unknown)
  have E: "team_status_of (exec_op (DisbandTeam tid) c) tid = None"
    using disband_team_absent(1)[OF inv, of tid] by (simp add: team_status_of_def)
  have F: "(team_status_of c tid = Some ready \<longrightarrow>
             team_status_of (run_ops ops c) tid = Some ready \<or> team_status_of (run_ops ops c) tid = None)
          \<and> (team_status_of c tid = None \<longrightarrow> team_status_of (run_ops ops c) tid = None)"
    if "\<forall>op \<in> set ops. issued_id op \<noteq> Some tid"
    using status_run_ops[OF that, of c] by blast
  from A B C D E F show ?thesis by blast
qed

theorem team_status_monotonic_witness:
  "team_status_of (run_ops [CreateTeam ''t'' 7 [8] 1000000, SetTeamReady ''t_7_1''] new_coordinator) ''t_7_1''
     = Some ready
   \<and> team_status_of
       (run_ops [SetTeamReady ''t_7_1'', CreateTeam ''u'' 7 [8] 1000000]
          (run_ops [CreateTeam ''t'' 7 [8] 1000000, SetTeamReady ''t_7_1''] new_coordinator)) ''t_7_1''
     = Some ready
   \<and> team_status_of
       (run_ops [SetTeamReady ''t_7_1'', CreateTeam ''u'' 7 [8] 1000000] (run_ops [] new_coordinator))
       ''t_7_1''
     = None"
proof -
  let ?pre = "[CreateTeam ''t'' 7 [8] 1000000, SetTeamReady ''t_7_1'']"
  let ?ops = "[SetTeamReady ''t_7_1'', CreateTeam ''u'' 7 [8] 1000000]"
  let ?c = "run_ops ?pre new_coordinator"
  have id: "make_team_id ''t'' 7 1000000 = ''t_7_1''" by (simp add: team_id_eval)
  have id': "make_team_id ''u'' 7 1000000 \<noteq> ''t_7_1''" by (simp add: make_team_id_def)
  have known: "team_tasks (snd (create_team ''t'' 7 [8] 1000000 new_coordinator)) ''t_7_1'' \<noteq> None"
    by (simp add: create_team_simps id)
  have fresh: "\<forall>op \<in> set ?ops. issued_id op \<noteq> Some ''t_7_1''"
    using id' by simp
  have rdy: "team_status_of ?c ''t_7_1'' = Some ready"
    using team_status_monotonic [where tid = "''t_7_1''" and pre = "[CreateTeam ''t'' 7 [8] 1000000]"
        and ops = "[]" and tname = "''t''" and ldr = 7 and mems = "[8]" and t = 1000000] known
    by simp
  have stay: "team_status_of (run_ops ?ops ?c) ''t_7_1'' = Some ready"
  proof -
    note last = team_status_monotonic [where tid = "''t_7_1''" and pre = ?pre and ops = ?ops
        and tname = "''t''" and ldr = 7 and mems = "[8]" and t = 1000000,
        THEN conjunct2, THEN conjunct2, THEN conjunct2, THEN conjunct2, THEN conjunct2]
    from last [THEN mp, OF fresh, THEN conjunct1, THEN mp, OF rdy]
    have "team_status_of (run_ops ?ops ?c) ''t_7_1'' = Some ready
        \<or> team_status_of (run_ops ?ops ?c) ''t_7_1'' = None" .
    moreover have "team_status_of (run_ops ?ops ?c) ''t_7_1'' \<noteq> None"
      using id id'
      by (simp add: team_status_of_def create_team_simps set_team_ready_def Let_def new_coordinator_def)
    ultimately show ?thesis by blast
  qed
  have none: "team_status_of (run_ops [] new_coordinator) ''t_7_1'' = None"
    by (simp add: team_status_of_def new_coordinator_def)
  note last0 = team_status_monotonic [where tid = "''t_7_1''" and pre = "[]" and ops = ?ops
      and tname = "''t''" and ldr = 7 and mems = "[8]" and t = 1000000,
      THEN conjunct2, THEN conjunct2, THEN conjunct2, THEN conjunct2, THEN conjunct2]
  have absent: "team_status_of (run_ops ?ops (run_ops [] new_coordinator)) ''t_7_1'' = None"
    by (rule last0 [THEN mp, OF fresh, THEN conjunct2, THEN mp, OF none])
  from rdy stay absent show ?thesis by blast
qed

text \<open>
  C7 as stated fails: a \<open>create_team\<close> for the same task and leader within the same
  second issues the id of a \<open>ready\<close> record again and puts a \<open>forming\<close> record with an
  unfired signal in its place; after a disband it brings the removed id back.
\<close>

theorem team_status_reset_counterexample:
  "team_status_of
     (run_ops [CreateTeam ''t'' 7 [8] 1000000, SetTeamReady ''t_7_1''] new_coordinator) ''t_7_1''
     = Some ready
   \<and> team_status_of
       (run_ops [CreateTeam ''t'' 7 [8] 1000000, SetTeamReady ''t_7_1'', CreateTeam ''t'' 7 [8] 1900000]
          new_coordinator) ''t_7_1''
     = Some forming
   \<and> team_status_of
       (run_ops [CreateTeam ''t'' 7 [8] 1000000, DisbandTeam ''t_7_1''] new_coordinator) ''t_7_1''
     = None
   \<and> team_status_of
       (run_ops [CreateTeam ''t'' 7 [8] 1000000, DisbandTeam ''t_7_1'', CreateTeam ''t'' 7 [8] 1900000]
          new_coordinator) ''t_7_1''
     = Some forming"
proof -
  have id: "make_team_id ''t'' 7 1000000 = ''t_7_1''" "make_team_id ''t'' 7 1900000 = ''t_7_1''"
    by (simp_all add: team_id_eval)
  show ?thesis
    by (simp add: team_status_of_def create_team_simps set_team_ready_def disband_team_def Let_def
          new_coordinator_def id)
qed

text \<open>
  C8. In every state that coordinator operations reach from the empty registry,
  \<open>disband_team\<close> raises nothing, a second call raises nothing and leaves the state of
  the first call as it is, the id is then in none of the three dictionaries, the entries
  of every other id are as before, and on an id that is not registered the first call
  already changes nothing.
\<close>

theorem disband_team_idempotent:
  fixes ops :: "coord_op list"
  defines "c \<equiv> run_ops ops new_coordinator"
  shows
    "fst (disband_team tid c) = None
     \<and> disband_team tid (snd (disband_team tid c)) = (None, snd (disband_team tid c))
     \<and> tid \<notin> dom (team_tasks (snd (disband_team tid c)))
     \<and> tid \<notin> dom (team_members (snd (disband_team tid c)))
     \<and> tid \<notin> dom (team_events (snd (disband_team tid c)))
     \<and> (other \<noteq> tid \<longrightarrow>
          team_tasks (snd (disband_team tid c)) other = team_tasks c other
          \<and> team_members (snd (disband_team tid c)) other = team_members c other
          \<and> team_events (snd (disband_team tid c)) other = team_events c other)
     \<and> (tid \<notin> dom (team_tasks c) \<longrightarrow> disband_team tid c = (None, c))"
proof -
  have inv: "coord_inv c" unfolding c_def by (rule coord_inv_reachable)
  have absent: "team_tasks (snd (disband_team tid c)) tid = None"
    "team_members (snd (disband_team tid c)) tid = None"
    "team_events (snd (disband_team tid c)) tid = None"
    by (rule disband_team_absent[OF inv])+
  have first: "fst (disband_team tid c) = None" by (rule disband_team_ok[OF inv])
  have second: "disband_team tid (snd (disband_team tid c)) = (None, snd (disband_team tid c))"
    by (rule disband_team_unknown[OF absent(1)])
  have others: "team_tasks (snd (disband_team tid c)) other = team_tasks c other
          \<and> team_members (snd (disband_team tid c)) other = team_members c other
          \<and> team_events (snd (disband_team tid c)) other = team_events c other"
    if "other \<noteq> tid"
  proof (cases "team_tasks c tid")
    case None
    then show ?thesis by (simp add: disband_team_unknown)
  next
    case (Some info)
    with that show ?thesis by (simp add: disband_team_known[OF inv Some])
  qed
  have unknown: "disband_team tid c = (None, c)" if "tid \<notin> dom (team_tasks c)"
    using that by (intro disband_team_unknown) (simp add: dom_def)
  from absent first second others unknown show ?thesis by (simp add: dom_def)
qed

theorem disband_team_idempotent_witness:
  "disband_team ''t_7_1''
     (snd (disband_team ''t_7_1'' (run_ops [CreateTeam ''t'' 7 [8] 1000000, CreateTeam ''u'' 7 [8] 1000000] new_coordinator)))
   = (None, snd (disband_team ''t_7_1'' (run_ops [CreateTeam ''t'' 7 [8] 1000000, CreateTeam ''u'' 7 [8] 1000000] new_coordinator)))
   \<and> team_members (snd (disband_team ''t_7_1'' (run_ops [CreateTeam ''t'' 7 [8] 1000000, CreateTeam ''u'' 7 [8] 1000000] new_coordinator)))
        (make_team_id ''u'' 7 1000000)
      = Some [7, 8]
   \<and> disband_team ''never_created'' (run_ops [] new_coordinator) = (None, run_ops [] new_coordinator)"
proof -
  let ?ops = "[CreateTeam ''t'' 7 [8] 1000000, CreateTeam ''u'' 7 [8] 1000000]"
  have id: "make_team_id ''t'' 7 1000000 = ''t_7_1''" by (simp add: team_id_eval)
  have id': "make_team_id ''u'' 7 1000000 \<noteq> ''t_7_1''" by (simp add: make_team_id_def)
  have mem: "team_members (run_ops ?ops new_coordinator) (make_team_id ''u'' 7 1000000) = Some [7, 8]"
    by (simp add: create_team_simps)
  have unk: "''never_created'' \<notin> dom (team_tasks (run_ops [] new_coordinator))"
    by (simp add: new_coordinator_def)
  note th = disband_team_idempotent [where tid = "''t_7_1''" and ops = ?ops
      and other = "make_team_id ''u'' 7 1000000"]
  note th0 = disband_team_idempotent [where tid = "''never_created''" and ops = "[]"
      and other = "''t_7_1''"]
  from th id' mem th0 unk show ?thesis by simp
qed

text \<open>
  C9. Right after \<open>create_team\<close> the returned id gives the role \<open>LEADER\<close> to the leader
  handle, \<open>MEMBER\<close> to every other handle of the given member list and \<open>SOLO\<close> to every
  other handle. For a registered id in general the role follows the recorded leader
  and the recorded member list in that order (the leader check comes first), and an id
  that is not registered, or has just been disbanded, gives \<open>SOLO\<close> for every handle.
\<close>

theorem get_team_role_correct:
  "get_team_role (snd (create_team tname ldr mems t c)) (fst (create_team tname ldr mems t c)) h
     = (if h = ldr then LEADER else if h \<in> set mems then MEMBER else SOLO)
   \<and> (team_tasks c tid = Some info \<longrightarrow>
        get_team_role c tid h
          = (if h = leader info then LEADER else if h \<in> set (members info) then MEMBER else SOLO))
   \<and> (team_tasks c tid = None \<longrightarrow> get_team_role c tid h = SOLO)
   \<and> get_team_role (snd (disband_team tid c)) tid h = SOLO"
proof -
  have "team_tasks (snd (disband_team tid c)) tid = None"
    by (simp add: disband_team_def Let_def dom_def)
  then show ?thesis
    by (simp add: get_team_role_def create_team_simps)
qed

theorem get_team_role_correct_witness:
  "get_team_role (snd (create_team ''t'' 7 [8, 9] 1000000 new_coordinator)) ''t_7_1'' 7 = LEADER
   \<and> get_team_role (snd (create_team ''t'' 7 [8, 9] 1000000 new_coordinator)) ''t_7_1'' 9 = MEMBER
   \<and> get_team_role (snd (create_team ''t'' 7 [8, 9] 1000000 new_coordinator)) ''t_7_1'' 10 = SOLO
   \<and> get_team_role new_coordinator ''t_7_1'' 7 = SOLO"
proof -
  let ?c = "snd (create_team ''t'' 7 [8, 9] 1000000 new_coordinator)"
  let ?info = "\<lparr>task_name = ''t'', leader = 7, members = [8, 9], status = forming, created_at = 1000000\<rparr>"
  have id: "make_team_id ''t'' 7 1000000 = ''t_7_1''" by (simp add: team_id_eval)
  have reg: "team_tasks ?c ''t_7_1'' = Some ?info" by (simp add: create_team_simps id)
  have unreg: "team_tasks new_coordinator ''t_7_1'' = None" by (simp add: new_coordinator_def)
  from get_team_role_correct [where c = ?c and tid = "''t_7_1''" and info = ?info and h = 7
      and tname = "''t''" and ldr = 7 and mems = "[8, 9]" and t = 1000000] reg
  have a: "get_team_role ?c ''t_7_1'' 7 = LEADER" by simp
  from get_team_role_correct [where c = ?c and tid = "''t_7_1''" and info = ?info and h = 9
      and tname = "''t''" and ldr = 7 and mems = "[8, 9]" and t = 1000000] reg
  have b: "get_team_role ?c ''t_7_1'' 9 = MEMBER" by simp
  from get_team_role_correct [where c = ?c and tid = "''t_7_1''" and info = ?info and h = 10
      and tname = "''t''" and ldr = 7 and mems = "[8, 9]" and t = 1000000] reg
  have c: "get_team_role ?c ''t_7_1'' 10 = SOLO" by simp
  from get_team_role_correct [where c = new_coordinator and tid = "''t_7_1''" and info = ?info
      and h = 7 and tname = "''t''" and ldr = 7 and mems = "[8, 9]" and t = 1000000] unreg
  have d: "get_team_role new_coordinator ''t_7_1'' 7 = SOLO" by simp
  from a b c d show ?thesis by simp
qed

text \<open>
  C10. Right after \<open>create_team\<close> the member list of the returned id is the leader
  handle followed by the given member handles in their order; an id without an entry
  in \<open>team_members\<close> gives the empty list, and so does, in every state that coordinator
  operations reach from the empty registry, an id without a record in \<open>team_tasks\<close>.
\<close>

theorem get_team_members_correct:
  "get_team_members (snd (create_team tname ldr mems t c)) (fst (create_team tname ldr mems t c))
     = ldr # mems
   \<and> (team_members c tid = None \<longrightarrow> get_team_members c tid = [])
   \<and> (team_tasks (run_ops ops new_coordinator) tid = None \<longrightarrow>
        get_team_members (run_ops ops new_coordinator) tid = [])"
proof -
  have "get_team_members (run_ops ops new_coordinator) tid = []"
    if "team_tasks (run_ops ops new_coordinator) tid = None"
  proof -
    from that coord_inv_reachable[of ops]
    have "tid \<notin> dom (team_members (run_ops ops new_coordinator))"
      by (auto simp: coord_inv_def)
    then show ?thesis by (simp add: get_team_members_def dom_def)
  qed
  then show ?thesis
    by (simp add: get_team_members_def create_team_simps)
qed

theorem get_team_members_correct_witness:
  "get_team_members (snd (create_team ''t'' 7 [8, 9] 1000000 new_coordinator)) ''t_7_1'' = [7, 8, 9]
   \<and> get_team_members new_coordinator ''t_7_1'' = []
   \<and> get_team_members (run_ops [CreateTeam ''t'' 7 [8, 9] 1000000, DisbandTeam ''t_7_1''] new_coordinator)
        ''t_7_1'' = []"
proof -
  let ?ops = "[CreateTeam ''t'' 7 [8, 9] 1000000, DisbandTeam ''t_7_1'']"
  have id: "make_team_id ''t'' 7 1000000 = ''t_7_1''" by (simp add: team_id_eval)
  have unreg: "team_members new_coordinator ''t_7_1'' = None" by (simp add: new_coordinator_def)
  have gone: "team_tasks (run_ops ?ops new_coordinator) ''t_7_1'' = None"
    by (simp add: disband_team_def Let_def dom_def)
  from get_team_members_correct [where c = new_coordinator and tid = "''t_7_1''" and ops = ?ops
      and tname = "''t''" and ldr = 7 and mems = "[8, 9]" and t = 1000000] id unreg gone
  show ?thesis by simp
qed

section \<open>One executor's pipeline\<close>

lemma execute_solo_task_eq:
  "execute_solo_task f ex w =
     (case returned (f (CallSolo (hwnd_of ex))) of
        Inl e \<Rightarrow> Inl e
      | Inr r \<Rightarrow> set_item r ''role'' (PStr ''solo''),
      ex\<lparr>is_running := is_running ex \<and> \<not> stop_requested (f (CallSolo (hwnd_of ex)))\<rparr>,
      w\<lparr>clock := clock w + elapsed (f (CallSolo (hwnd_of ex)))\<rparr>)"
  by (simp add: execute_solo_task_def after_call_def Let_def)

lemma get_team_role_own_team:
  "get_team_role (snd (create_team tname ldr mems t c)) (make_team_id tname ldr t) ldr = LEADER"
  by (simp add: get_team_role_def create_team_simps)

lemma execute_team_task_coordinated:
  assumes "get_teammates_for_task ex tname (case team_size cfg of None \<Rightarrow> 5 | Some n \<Rightarrow> n) = mates"
    and "mates \<noteq> []"
  shows "execute_team_task tname f cfg ex w =
     (let tid = make_team_id tname (hwnd_of ex) (clock w);
          out = f (CallTeam LEADER tid)
      in (case returned out of
            Inl e \<Rightarrow> Inl e
          | Inr r \<Rightarrow>
              (case set_item r ''role'' (PStr ''leader'') of
                 Inl e \<Rightarrow> Inl e
               | Inr d \<Rightarrow> set_item (Some d) ''team_id'' (PStr tid)),
          ex\<lparr>current_team_id := Some tid, is_running := is_running ex \<and> \<not> stop_requested out\<rparr>,
          w\<lparr>coord := snd (create_team tname (hwnd_of ex) mates (clock w) (coord w)),
            clock := clock w + elapsed out\<rparr>))"
  using assms
  by (simp add: execute_team_task_def Let_def split_beta get_team_role_own_team after_call_def
        cong: sum.case_cong)

lemma execute_team_task_alone:
  assumes "get_teammates_for_task ex tname (case team_size cfg of None \<Rightarrow> 5 | Some n \<Rightarrow> n) = []"
  shows "execute_team_task tname f cfg ex w = execute_solo_task f ex w"
  using assms by (simp add: execute_team_task_def Let_def)

text \<open>What every execution of one task does, whichever path it takes.\<close>

lemma execute_single_task_frame:
  fixes t ex w
  defines "r \<equiv> execute_single_task t ex w"
    and "out \<equiv> t_func t (task_call_of t ex w)"
  shows "clock (snd (snd r)) = clock w + elapsed out"
    and "is_running (fst (snd r)) = (is_running ex \<and> \<not> stop_requested out)"
    and "hwnd_of (fst (snd r)) = hwnd_of ex"
    and "available_windows (fst (snd r)) = available_windows ex"
    and "returned out = Inl e \<Longrightarrow> fst r = Inl e"
    and "coord_inv (coord w) \<Longrightarrow> coord_inv (coord (snd (snd r)))"
proof -
  let ?mates = "get_teammates_for_task ex (t_name t)
                  (case team_size (t_config t) of None \<Rightarrow> 5 | Some n \<Rightarrow> n)"
  consider (solo) "\<not> (case is_team_task (t_config t) of None \<Rightarrow> False | Some b \<Rightarrow> b)"
    | (alone) "(case is_team_task (t_config t) of None \<Rightarrow> False | Some b \<Rightarrow> b)" "?mates = []"
    | (team) "(case is_team_task (t_config t) of None \<Rightarrow> False | Some b \<Rightarrow> b)" "?mates \<noteq> []"
    by blast
  then have "clock (snd (snd r)) = clock w + elapsed out
      \<and> is_running (fst (snd r)) = (is_running ex \<and> \<not> stop_requested out)
      \<and> hwnd_of (fst (snd r)) = hwnd_of ex
      \<and> available_windows (fst (snd r)) = available_windows ex
      \<and> (returned out = Inl e \<longrightarrow> fst r = Inl e)
      \<and> (coord_inv (coord w) \<longrightarrow> coord_inv (coord (snd (snd r))))"
  proof cases
    case solo
    then show ?thesis
      by (simp add: r_def out_def execute_single_task_def task_call_of_def forms_team_def
            execute_solo_task_eq)
  next
    case alone
    then show ?thesis
      by (simp add: r_def out_def execute_single_task_def task_call_of_def forms_team_def
            execute_solo_task_eq execute_team_task_alone)
  next
    case team
    then show ?thesis
      by (simp add: r_def out_def execute_single_task_def task_call_of_def forms_team_def
            execute_team_task_coordinated[OF refl] Let_def coord_inv_create_team)
  qed
  then show "clock (snd (snd r)) = clock w + elapsed out"
    and "is_running (fst (snd r)) = (is_running ex \<and> \<not> stop_requested out)"
    and "hwnd_of (fst (snd r)) = hwnd_of ex"
    and "available_windows (fst (snd r)) = available_windows ex"
    and "returned out = Inl e \<Longrightarrow> fst r = Inl e"
    and "coord_inv (coord w) \<Longrightarrow> coord_inv (coord (snd (snd r)))"
    by simp_all
qed

lemma execute_single_task_raise:
  assumes "fst (execute_single_task t ex w) = Inl r"
  shows "returned (t_func t (task_call_of t ex w)) = Inl r \<or> (\<exists>m. r = Exception m)"
proof -
  let ?mates = "get_teammates_for_task ex (t_name t)
                  (case team_size (t_config t) of None \<Rightarrow> 5 | Some n \<Rightarrow> n)"
  consider (solo) "\<not> (case is_team_task (t_config t) of None \<Rightarrow> False | Some b \<Rightarrow> b)"
    | (alone) "(case is_team_task (t_config t) of None \<Rightarrow> False | Some b \<Rightarrow> b)" "?mates = []"
    | (team) "(case is_team_task (t_config t) of None \<Rightarrow> False | Some b \<Rightarrow> b)" "?mates \<noteq> []"
    by blast
  then show ?thesis
  proof cases
    case solo
    with assms show ?thesis
      by (auto simp: execute_single_task_def task_call_of_def forms_team_def execute_solo_task_eq
            set_item_def split: sum.splits option.splits)
  next
    case alone
    with assms show ?thesis
      by (auto simp: execute_single_task_def task_call_of_def forms_team_def execute_solo_task_eq
            execute_team_task_alone set_item_def split: sum.splits option.splits)
  next
    case team
    with assms show ?thesis
      by (auto simp: execute_single_task_def task_call_of_def forms_team_def
            execute_team_task_coordinated[OF refl] Let_def set_item_def
            split: sum.splits option.splits)
  qed
qed

lemma run_task_eq:
  "run_task t (results, ex, w) =
     (case fst (execute_single_task t ex w) of
        Inr d \<Rightarrow>
          (None,
           results(t_name t \<mapsto>
             TaskSuccess (clock (snd (snd (execute_single_task t ex w))) - clock w)
               (case d ''role'' of None \<Rightarrow> PStr ''solo'' | Some v \<Rightarrow> v)
               (case d ''team_id'' of None \<Rightarrow> PNone | Some v \<Rightarrow> v)
               (clock w) (clock (snd (snd (execute_single_task t ex w))))),
           snd (execute_single_task t ex w))
      | Inl r \<Rightarrow>
          (case r of
             Exception m \<Rightarrow>
               (None,
                results(t_name t \<mapsto>
                  TaskFailed m (clock (snd (snd (execute_single_task t ex w))) - clock w)
                    (clock w) (clock (snd (snd (execute_single_task t ex w))))),
                snd (execute_single_task t ex w))
           | Escaping n \<Rightarrow> (Some (Escaping n), results, snd (execute_single_task t ex w))
           | Fatal n \<Rightarrow> (Some (Fatal n), results, snd (execute_single_task t ex w))))"
  by (simp add: run_task_def Let_def split_beta split: sum.splits raised.splits)

lemma run_task_state: "snd (snd (run_task t (results, ex, w))) = snd (execute_single_task t ex w)"
  by (simp add: run_task_eq split: sum.splits raised.splits)

lemma run_task_escape:
  "fst (run_task t (results, ex, w)) = Some r \<longleftrightarrow>
     fst (execute_single_task t ex w) = Inl r \<and> (\<forall>m. r \<noteq> Exception m)"
  by (auto simp: run_task_eq split: sum.splits raised.splits)

lemma run_task_dom:
  "fst (run_task t s) = None \<Longrightarrow> dom (fst (snd (run_task t s))) = insert (t_name t) (dom (fst s))"
  by (cases s) (auto simp: run_task_eq split: sum.splits raised.splits)

lemma run_task_frame:
  shows "is_running (fst (snd (snd (run_task t s))))
           = (is_running (fst (snd s))
              \<and> \<not> stop_requested (t_func t (task_call_of t (fst (snd s)) (snd (snd s)))))"
    and "hwnd_of (fst (snd (snd (run_task t s)))) = hwnd_of (fst (snd s))"
    and "available_windows (fst (snd (snd (run_task t s)))) = available_windows (fst (snd s))"
    and "clock (snd (snd (snd (run_task t s))))
           = clock (snd (snd s)) + elapsed (t_func t (task_call_of t (fst (snd s)) (snd (snd s))))"
    and "coord_inv (coord (snd (snd s))) \<Longrightarrow> coord_inv (coord (snd (snd (snd (run_task t s)))))"
  by (cases s; simp add: run_task_state execute_single_task_frame)+

lemma run_tasks_stopped: "\<not> is_running (fst (snd s)) \<Longrightarrow> run_tasks ts s = (None, s)"
  by (cases ts) simp_all

lemma run_tasks_append:
  "run_tasks (xs @ ys) s =
     (case run_tasks xs s of (None, s') \<Rightarrow> run_tasks ys s' | (Some r, s') \<Rightarrow> (Some r, s'))"
proof (induction xs arbitrary: s)
  case Nil
  then show ?case by simp
next
  case (Cons x xs)
  show ?case
  proof (cases "is_running (fst (snd s))")
    case True
    with Cons show ?thesis by (simp split: prod.splits option.splits)
  next
    case False
    then show ?thesis by (simp add: run_tasks_stopped)
  qed
qed

lemma run_tasks_hwnd: "hwnd_of (fst (snd (snd (run_tasks ts s)))) = hwnd_of (fst (snd s))"
proof (induction ts arbitrary: s)
  case Nil
  then show ?case by simp
next
  case (Cons t ts)
  obtain esc s' where p: "run_task t s = (esc, s')" by (cases "run_task t s") auto
  with run_task_frame(2)[of t s] have "hwnd_of (fst (snd s')) = hwnd_of (fst (snd s))" by simp
  with p Cons.IH[of s'] show ?case by (cases esc) simp_all
qed

lemma run_tasks_dom:
  assumes "is_running (fst (snd s))"
    and "\<forall>t \<in> set ts. \<forall>call. \<not> stop_requested (t_func t call)
           \<and> (\<forall>r. returned (t_func t call) = Inl r \<longrightarrow> (\<exists>m. r = Exception m))"
  shows "fst (run_tasks ts s) = None
       \<and> dom (fst (snd (run_tasks ts s))) = dom (fst s) \<union> t_name ` set ts"
  using assms
proof (induction ts arbitrary: s)
  case Nil
  then show ?case by simp
next
  case (Cons t ts)
  obtain results ex w where s: "s = (results, ex, w)" by (cases s) auto
  have none: "fst (run_task t s) = None"
  proof (cases "fst (run_task t s)")
    case None
    then show ?thesis .
  next
    case (Some r)
    then have "fst (execute_single_task t ex w) = Inl r" and ne: "\<forall>m. r \<noteq> Exception m"
      by (simp_all add: s run_task_escape)
    from execute_single_task_raise[OF this(1)] ne Cons.prems(2) show ?thesis by auto
  qed
  obtain s' where s': "run_task t s = (None, s')" using none by (cases "run_task t s") simp
  from Cons.prems s' run_task_frame(1)[of t s] have run': "is_running (fst (snd s'))" by simp
  from Cons.prems have rest: "\<forall>t \<in> set ts. \<forall>call. \<not> stop_requested (t_func t call)
           \<and> (\<forall>r. returned (t_func t call) = Inl r \<longrightarrow> (\<exists>m. r = Exception m))" by simp
  from run_task_dom[OF none] s' have d: "dom (fst s') = insert (t_name t) (dom (fst s))" by simp
  from Cons.IH[OF run' rest] Cons.prems(1) s' d show ?case by simp
qed

text \<open>
  C5, as the code has it. Let the loop reach task \<open>t\<close> after the tasks \<open>pre\<close> with
  \<open>is_running\<close> still set, and let the task function raise an \<open>Exception\<close> with the
  text \<open>msg\<close> when the executor calls it. Then the entry stored under the task's name is
  a failed one that carries \<open>msg\<close>, the time the call took and the two clock readings
  around it; the exception does not end the loop, which goes on with the remaining
  tasks from the state the failed task left; the flag \<open>is_running\<close> is cleared only by
  a stop request, so that without one the next task is run as well. Moreover, in a run
  without stop requests in which the task functions raise nothing but instances of
  \<open>Exception\<close>, every task of the pipeline has an entry under its name, however many
  of them raise.
\<close>

theorem failed_task_recorded_pipeline_continues:
  fixes pre post ts :: "task_spec list"
    and s0 s1 :: "task_results \<times> executor \<times> world"
    and t :: task_spec
  defines "out \<equiv> t_func t (task_call_of t (fst (snd s1)) (snd (snd s1)))"
  assumes before: "run_tasks pre s0 = (None, s1)"
    and attempted: "is_running (fst (snd s1))"
    and throws: "returned out = Inl (Exception msg)"
  shows
    "fst (run_task t s1) = None
     \<and> fst (snd (run_task t s1)) (t_name t)
         = Some (TaskFailed msg (elapsed out) (clock (snd (snd s1)))
                   (clock (snd (snd s1)) + elapsed out))
     \<and> run_tasks (pre @ t # post) s0 = run_tasks post (snd (run_task t s1))
     \<and> is_running (fst (snd (snd (run_task t s1)))) = (\<not> stop_requested out)
     \<and> (\<not> stop_requested out \<longrightarrow>
          run_tasks (pre @ t # next_task # post) s0
            = (case run_task next_task (snd (run_task t s1)) of
                 (None, s3) \<Rightarrow> run_tasks post s3
               | (Some r, s3) \<Rightarrow> (Some r, s3)))
     \<and> (is_running ex
          \<and> (\<forall>u \<in> set ts. \<forall>call. \<not> stop_requested (t_func u call)
                \<and> (\<forall>r. returned (t_func u call) = Inl r \<longrightarrow> (\<exists>m. r = Exception m))) \<longrightarrow>
          fst (run_tasks ts (Map.empty, ex, w)) = None
          \<and> dom (fst (snd (run_tasks ts (Map.empty, ex, w)))) = t_name ` set ts)"
proof -
  obtain results ex1 w1 where s1: "s1 = (results, ex1, w1)" by (cases s1) auto
  have out: "out = t_func t (task_call_of t ex1 w1)" by (simp add: out_def s1)
  from throws have failed: "fst (execute_single_task t ex1 w1) = Inl (Exception msg)"
    unfolding out by (rule execute_single_task_frame(5))
  have clk: "clock (snd (snd (execute_single_task t ex1 w1))) = clock w1 + elapsed out"
    unfolding out by (rule execute_single_task_frame(1))
  have none: "fst (run_task t s1) = None"
    by (simp add: s1 run_task_eq failed)
  then obtain s2 where s2: "run_task t s1 = (None, s2)" by (cases "run_task t s1") simp
  have entry: "fst (snd (run_task t s1)) (t_name t)
       = Some (TaskFailed msg (elapsed out) (clock (snd (snd s1)))
                 (clock (snd (snd s1)) + elapsed out))"
    by (simp add: s1 run_task_eq failed clk)
  have goes_on: "run_tasks (pre @ t # post) s0 = run_tasks post (snd (run_task t s1))" for post
    using attempted by (simp add: run_tasks_append before s2)
  have flag: "is_running (fst (snd (snd (run_task t s1)))) = (\<not> stop_requested out)"
    using attempted by (simp add: run_task_frame(1) out_def)
  have nxt: "run_tasks (pre @ t # next_task # post) s0
            = (case run_task next_task (snd (run_task t s1)) of
                 (None, s3) \<Rightarrow> run_tasks post s3
               | (Some r, s3) \<Rightarrow> (Some r, s3))" if "\<not> stop_requested out"
    using that flag by (simp add: goes_on)
  have all: "fst (run_tasks ts (Map.empty, ex, w)) = None
          \<and> dom (fst (snd (run_tasks ts (Map.empty, ex, w)))) = t_name ` set ts"
    if "is_running ex
          \<and> (\<forall>u \<in> set ts. \<forall>call. \<not> stop_requested (t_func u call)
                \<and> (\<forall>r. returned (t_func u call) = Inl r \<longrightarrow> (\<exists>m. r = Exception m)))"
    using run_tasks_dom[of "(Map.empty, ex, w)" ts] that by simp
  from none entry goes_on flag nxt all show ?thesis by blast
qed

theorem failed_task_recorded_pipeline_continues_witness:
  "fst (snd (run_tasks
          [\<lparr>t_name = ''shi_men'',
            t_func = (\<lambda>call. \<lparr>returned = Inl (Exception ''no window''), elapsed = 3000000, stop_requested = False\<rparr>),
            t_config = \<lparr>is_team_task = Some False, team_size = None\<rparr>\<rparr>,
           \<lparr>t_name = ''bao_tu'',
            t_func = (\<lambda>call. \<lparr>returned = Inr (Some Map.empty), elapsed = 2000000, stop_requested = False\<rparr>),
            t_config = \<lparr>is_team_task = None, team_size = None\<rparr>\<rparr>]
          (Map.empty,
           \<lparr>hwnd_of = 1001, available_windows = [1001], is_running = True, current_team_id = None\<rparr>,
           \<lparr>coord = new_coordinator, clock = 5000000\<rparr>))) ''shi_men''
     = Some (TaskFailed ''no window'' 3000000 5000000 8000000)
   \<and> fst (snd (run_tasks
          [\<lparr>t_name = ''shi_men'',
            t_func = (\<lambda>call. \<lparr>returned = Inl (Exception ''no window''), elapsed = 3000000, stop_requested = False\<rparr>),
            t_config = \<lparr>is_team_task = Some False, team_size = None\<rparr>\<rparr>,
           \<lparr>t_name = ''bao_tu'',
            t_func = (\<lambda>call. \<lparr>returned = Inr (Some Map.empty), elapsed = 2000000, stop_requested = False\<rparr>),
            t_config = \<lparr>is_team_task = None, team_size = None\<rparr>\<rparr>]
          (Map.empty,
           \<lparr>hwnd_of = 1001, available_windows = [1001], is_running = True, current_team_id = None\<rparr>,
           \<lparr>coord = new_coordinator, clock = 5000000\<rparr>))) ''bao_tu''
     = Some (TaskSuccess 2000000 (PStr ''solo'') PNone 8000000 10000000)"
proof -
  let ?bad = "\<lparr>t_name = ''shi_men'',
            t_func = (\<lambda>call. \<lparr>returned = Inl (Exception ''no window''), elapsed = 3000000, stop_requested = False\<rparr>),
            t_config = \<lparr>is_team_task = Some False, team_size = None\<rparr>\<rparr>"
  let ?good = "\<lparr>t_name = ''bao_tu'',
            t_func = (\<lambda>call. \<lparr>returned = Inr (Some Map.empty), elapsed = 2000000, stop_requested = False\<rparr>),
            t_config = \<lparr>is_team_task = None, team_size = None\<rparr>\<rparr>"
  let ?ex = "\<lparr>hwnd_of = 1001, available_windows = [1001], is_running = True, current_team_id = None\<rparr>"
  let ?w = "\<lparr>coord = new_coordinator, clock = 5000000\<rparr>"
  let ?s0 = "(Map.empty :: task_results, ?ex, ?w)"
  have before: "run_tasks [] ?s0 = (None, ?s0)" by simp
  have attempted: "is_running (fst (snd ?s0))" by simp
  have throws: "returned (t_func ?bad (task_call_of ?bad (fst (snd ?s0)) (snd (snd ?s0))))
                  = Inl (Exception ''no window'')"
    by simp
  note th = failed_task_recorded_pipeline_continues [where pre = "[]" and ?s0.0 = ?s0
      and ?s1.0 = ?s0 and t = ?bad and msg = "''no window''" and post = "[?good]"
      and next_task = ?good and ex = ?ex and w = ?w and ts = "[?bad, ?good]",
      OF before attempted throws]
  from th have entry: "fst (snd (run_task ?bad ?s0)) ''shi_men''
      = Some (TaskFailed ''no window'' 3000000 5000000 8000000)"
    by simp
  from th have cont: "run_tasks [?bad, ?good] ?s0 = run_tasks [?good] (snd (run_task ?bad ?s0))"
    by simp
  have frame: "snd (snd (run_task ?bad ?s0)) = (?ex, \<lparr>coord = new_coordinator, clock = 8000000\<rparr>)"
    by (simp add: run_task_state execute_single_task_def execute_solo_task_eq)
  obtain r1 where r1: "snd (run_task ?bad ?s0) = (r1, ?ex, \<lparr>coord = new_coordinator, clock = 8000000\<rparr>)"
    using frame by (cases "snd (run_task ?bad ?s0)") simp
  from entry r1 have r1_bad: "r1 ''shi_men'' = Some (TaskFailed ''no window'' 3000000 5000000 8000000)"
    by simp
  have "run_task ?good (r1, ?ex, \<lparr>coord = new_coordinator, clock = 8000000\<rparr>)
      = (None, r1(''bao_tu'' \<mapsto> TaskSuccess 2000000 (PStr ''solo'') PNone 8000000 10000000),
         ?ex, \<lparr>coord = new_coordinator, clock = 10000000\<rparr>)"
    by (simp add: run_task_eq execute_single_task_def execute_solo_task_eq set_item_def)
  with cont r1 r1_bad show ?thesis by simp
qed

text \<open>
  C5 as stated fails for an exception outside \<open>Exception\<close>: when the first task is
  cancelled (\<open>asyncio.CancelledError\<close>), no entry is stored for it, the exception leaves
  the loop, and the second task is not run.
\<close>

theorem cancelled_task_ends_pipeline_counterexample:
  "run_tasks
     [\<lparr>t_name = ''shi_men'',
       t_func = (\<lambda>call. \<lparr>returned = Inl (Escaping ''CancelledError''), elapsed = 3000000, stop_requested = False\<rparr>),
       t_config = \<lparr>is_team_task = Some False, team_size = None\<rparr>\<rparr>,
      \<lparr>t_name = ''bao_tu'',
       t_func = (\<lambda>call. \<lparr>returned = Inr (Some Map.empty), elapsed = 2000000, stop_requested = False\<rparr>),
       t_config = \<lparr>is_team_task = None, team_size = None\<rparr>\<rparr>]
     (Map.empty,
      \<lparr>hwnd_of = 1001, available_windows = [1001], is_running = True, current_team_id = None\<rparr>,
      \<lparr>coord = new_coordinator, clock = 5000000\<rparr>)
   = (Some (Escaping ''CancelledError''), Map.empty,
      \<lparr>hwnd_of = 1001, available_windows = [1001], is_running = True, current_team_id = None\<rparr>,
      \<lparr>coord = new_coordinator, clock = 8000000\<rparr>)"
  by (simp add: run_task_eq execute_single_task_def execute_solo_task_eq)

section \<open>Teams of one executor\<close>


section \<open>One run of DailyTasks\<close>

lemma create_executors_ok:
  assumes "\<forall>h \<in> set hs. construct_error env h = None"
  shows "fst (create_executors env all_hwnds hs execs acc)
           = Inr (acc @ map (\<lambda>h. new_executor h all_hwnds) hs)"
  using assms
  by (induction hs arbitrary: execs acc) (simp_all add: Let_def)

lemma create_executors_hwnds:
  "fst (create_executors env all_hwnds hs execs acc) = Inr exs
     \<Longrightarrow> map hwnd_of exs = map hwnd_of acc @ hs"
proof (induction hs arbitrary: execs acc)
  case Nil
  then show ?case by simp
next
  case (Cons h hs)
  then show ?case
    by (cases "construct_error env h") (auto simp: Let_def new_executor_def)
qed

subsection \<open>One step of a coroutine\<close>

lemma finally_cleanup_hwnd: "hwnd_of (fst (snd (finally_cleanup ex w))) = hwnd_of ex"
  by (simp add: finally_cleanup_def Let_def split_beta split: option.splits)

lemma co_step_hwnd:
  "hwnd_of (co_exec (fst (snd (co_step env p co c)))) = hwnd_of (co_exec co)"
proof (cases p)
  case Start
  then show ?thesis by (simp add: Let_def split: option.splits raised.splits)
next
  case (Loop ts)
  show ?thesis
  proof (cases ts)
    case Nil
    with Loop show ?thesis by simp
  next
    case (Cons t ts')
    with Loop run_task_frame(2)[of t "(co_results co, co_exec co, \<lparr>coord = c, clock = co_clock co\<rparr>)"]
    show ?thesis by (simp add: split_beta)
  qed
next
  case (Cleanup pending)
  then show ?thesis by (simp add: split_beta finally_cleanup_hwnd)
next
  case (Finished r)
  then show ?thesis by simp
qed

lemma leave_hwnd:
  "leave err pending = Inr outcome \<Longrightarrow> pending = Inr outcome"
  by (auto simp: leave_def split: option.splits sum.splits)

lemma co_step_pos_hwnd:
  assumes "pos_hwnd p co"
  shows "pos_hwnd (fst (co_step env p co c)) (fst (snd (co_step env p co c)))"
proof (cases p)
  case Start
  then show ?thesis by (simp add: Let_def split: option.splits raised.splits)
next
  case (Loop ts)
  show ?thesis
  proof (cases ts)
    case Nil
    with Loop show ?thesis by simp
  next
    case (Cons t ts')
    with Loop show ?thesis by (simp add: split_beta split: option.splits)
  qed
next
  case (Cleanup pending)
  show ?thesis
  proof (cases "leave (fst (finally_cleanup (co_exec co) \<lparr>coord = c, clock = co_clock co\<rparr>)) pending")
    case (Inl a)
    with Cleanup show ?thesis by (simp add: split_beta)
  next
    case (Inr outcome)
    from leave_hwnd[OF Inr] assms Cleanup Inr show ?thesis
      by (simp add: split_beta finally_cleanup_hwnd)
  qed
next
  case (Finished r)
  with assms show ?thesis by simp
qed

lemma co_step_steps_left:
  "steps_left env (fst (co_step env p co c)) (fst (snd (co_step env p co c)))
     \<le> steps_left env p co - 1"
proof (cases p)
  case Start
  then show ?thesis by (simp add: Let_def split: option.splits raised.splits)
next
  case (Loop ts)
  show ?thesis
  proof (cases ts)
    case Nil
    with Loop show ?thesis by simp
  next
    case (Cons t ts')
    with Loop show ?thesis by (simp add: split_beta split: option.splits)
  qed
next
  case (Cleanup pending)
  then show ?thesis by (simp add: split_beta)
next
  case (Finished r)
  then show ?thesis by simp
qed

lemma steps_left_0: "steps_left env p co = 0 \<Longrightarrow> \<exists>r. p = Finished r"
  by (cases p) simp_all

lemma leave_not_fatal:
  assumes "\<forall>n. pending \<noteq> Inl (Fatal n)"
  shows "fatal_of (Finished (leave err pending)) = None"
proof (cases err)
  case (Some e)
  then show ?thesis by (simp add: leave_def)
next
  case None
  show ?thesis
  proof (cases pending)
    case (Inl r)
    with assms None show ?thesis by (cases r) (simp_all add: leave_def)
  next
    case (Inr outcome)
    with None show ?thesis by (simp add: leave_def)
  qed
qed

lemma pos_safe_Finished: "pos_safe env (Finished r) co \<longleftrightarrow> fatal_of (Finished r) = None"
proof (cases r)
  case (Inl a)
  show ?thesis
  proof (cases a)
    case (Propagated x)
    with Inl show ?thesis by (cases x) simp_all
  next
    case (CleanupFailed e)
    with Inl show ?thesis by simp
  qed
next
  case (Inr b)
  then show ?thesis by simp
qed

lemma pos_safe_Cleanup: "pos_safe env (Cleanup pending) co \<longleftrightarrow> (\<forall>n. pending \<noteq> Inl (Fatal n))"
proof (cases pending)
  case (Inl x)
  then show ?thesis by (cases x) simp_all
next
  case (Inr b)
  then show ?thesis by simp
qed

lemma co_step_pos_safe:
  assumes safe: "pos_safe env p co"
    and conn: "\<forall>n. connect_error env (hwnd_of (co_exec co)) \<noteq> Some (Fatal n)"
    and calls: "\<forall>t \<in> set (pipeline env (hwnd_of (co_exec co))). \<forall>call n.
                  returned (t_func t call) \<noteq> Inl (Fatal n)"
  shows "pos_safe env (fst (co_step env p co c)) (fst (snd (co_step env p co c)))"
proof (cases p)
  case Start
  with conn show ?thesis
    by (auto simp: Let_def pos_safe_Cleanup split: option.splits raised.splits)
next
  case (Loop ts)
  show ?thesis
  proof (cases ts)
    case Nil
    with Loop show ?thesis by simp
  next
    case (Cons t ts')
    let ?s = "(co_results co, co_exec co, \<lparr>coord = c, clock = co_clock co\<rparr>)"
    from safe Loop Cons have t: "t \<in> set (pipeline env (hwnd_of (co_exec co)))"
      and rest: "set ts' \<subseteq> set (pipeline env (hwnd_of (co_exec co)))" by auto
    have nofatal: "fst (run_task t ?s) \<noteq> Some (Fatal n)" for n
    proof
      assume "fst (run_task t ?s) = Some (Fatal n)"
      then have "fst (execute_single_task t (co_exec co) \<lparr>coord = c, clock = co_clock co\<rparr>) = Inl (Fatal n)"
        by (simp add: run_task_escape)
      from execute_single_task_raise[OF this] calls t show False by auto
    qed
    have hw: "hwnd_of (fst (snd (snd (run_task t ?s)))) = hwnd_of (co_exec co)"
      using run_task_frame(2)[of t ?s] by simp
    show ?thesis
    proof (cases "is_running (co_exec co)")
      case False
      with Loop Cons show ?thesis by simp
    next
      case True
      show ?thesis
      proof (cases "fst (run_task t ?s)")
        case None
        with Loop Cons True rest hw show ?thesis by (simp add: split_beta)
      next
        case (Some r)
        with nofatal have "\<forall>n. r \<noteq> Fatal n" by auto
        with Loop Cons True Some show ?thesis by (simp add: split_beta pos_safe_Cleanup)
      qed
    qed
  qed
next
  case (Cleanup pending)
  from safe Cleanup have "\<forall>n. pending \<noteq> Inl (Fatal n)" by (simp add: pos_safe_Cleanup)
  from leave_not_fatal[OF this] Cleanup show ?thesis
    by (simp add: split_beta pos_safe_Finished)
next
  case (Finished r)
  with safe show ?thesis by simp
qed

subsection \<open>The event loop\<close>

lemma pos_safe_not_fatal: "pos_safe env p co \<Longrightarrow> fatal_of p = None"
  by (cases p) (simp_all add: pos_safe_Finished)

lemma collect_Some:
  "collect cos = Some outs \<Longrightarrow>
     length outs = length cos \<and> (\<forall>j < length cos. fst (cos ! j) = Finished (outs ! j))"
proof (induction cos arbitrary: outs rule: collect.induct)
  case 1
  then show ?case by simp
next
  case (2 r co rest)
  from "2.prems" obtain rs where rs: "collect rest = Some rs" and outs: "outs = r # rs"
    by (auto split: option.splits)
  from "2.IH"[OF rs] outs show ?case by (auto simp: nth_Cons split: nat.splits)
qed simp_all

lemma collect_all_finished:
  "\<forall>j < length cos. \<exists>r. fst (cos ! j) = Finished r \<Longrightarrow> \<exists>outs. collect cos = Some outs"
proof (induction cos)
  case Nil
  then show ?case by simp
next
  case (Cons pc cos)
  from Cons.prems have "\<exists>r. fst ((pc # cos) ! 0) = Finished r" by blast
  then obtain r co where pc: "pc = (Finished r, co)" by (cases pc) auto
  from Cons.prems have "\<forall>j < length cos. \<exists>r. fst (cos ! j) = Finished r" by fastforce
  from Cons.IH[OF this] pc show ?case by auto
qed

lemma loop_step_eq:
  assumes "stopped el = None" and "i < length (coroutines el)"
  shows "loop_step env i el
      = el\<lparr>coroutines := (coroutines el)[i :=
              (fst (co_step env (fst (coroutines el ! i)) (snd (coroutines el ! i)) (shared el)),
               fst (snd (co_step env (fst (coroutines el ! i)) (snd (coroutines el ! i)) (shared el))))],
           shared := snd (snd (co_step env (fst (coroutines el ! i)) (snd (coroutines el ! i)) (shared el))),
           stopped := fatal_of (fst (co_step env (fst (coroutines el ! i)) (snd (coroutines el ! i)) (shared el)))\<rparr>"
  using assms by (simp add: loop_step_def split_beta)

lemma loop_step_idle:
  assumes "stopped el \<noteq> None \<or> \<not> i < length (coroutines el)"
  shows "loop_step env i el = el"
  using assms by (simp add: loop_step_def)

lemma loop_step_length: "length (coroutines (loop_step env i el)) = length (coroutines el)"
proof (cases "stopped el = None \<and> i < length (coroutines el)")
  case True
  then show ?thesis by (simp add: loop_step_eq)
next
  case False
  then show ?thesis by (simp add: loop_step_idle)
qed

lemma run_schedule_length: "length (coroutines (run_schedule env sched el)) = length (coroutines el)"
  by (induction sched arbitrary: el) (simp_all add: loop_step_length)

lemma loop_step_hwnds:
  assumes "list_all2 (\<lambda>h pc. hwnd_of (co_exec (snd pc)) = h \<and> pos_hwnd (fst pc) (snd pc))
             sel (coroutines el)"
  shows "list_all2 (\<lambda>h pc. hwnd_of (co_exec (snd pc)) = h \<and> pos_hwnd (fst pc) (snd pc))
           sel (coroutines (loop_step env i el))"
proof (cases "stopped el = None \<and> i < length (coroutines el)")
  case False
  with assms show ?thesis by (simp add: loop_step_idle)
next
  case True
  then have i: "i < length (coroutines el)" and run: "stopped el = None" by simp_all
  let ?P = "\<lambda>h pc. hwnd_of (co_exec (snd pc)) = h \<and> pos_hwnd (fst pc) (snd pc)"
  let ?p = "fst (coroutines el ! i)" and ?co = "snd (coroutines el ! i)"
  let ?r = "co_step env ?p ?co (shared el)"
  from list_all2_nthD2[OF assms i] have old: "hwnd_of (co_exec ?co) = sel ! i" "pos_hwnd ?p ?co"
    by simp_all
  have new: "?P (sel ! i) (fst ?r, fst (snd ?r))"
    using old(1) co_step_pos_hwnd[OF old(2), of env "shared el"]
    by (simp add: co_step_hwnd)
  from list_all2_update_cong[of ?P, OF assms new, of i]
  have "list_all2 ?P sel ((coroutines el)[i := (fst ?r, fst (snd ?r))])"
    by (simp only: list_update_id)
  then show ?thesis by (simp add: loop_step_eq[OF run i])
qed

lemma run_schedule_hwnds:
  assumes "list_all2 (\<lambda>h pc. hwnd_of (co_exec (snd pc)) = h \<and> pos_hwnd (fst pc) (snd pc))
             sel (coroutines el)"
  shows "list_all2 (\<lambda>h pc. hwnd_of (co_exec (snd pc)) = h \<and> pos_hwnd (fst pc) (snd pc))
           sel (coroutines (run_schedule env sched el))"
  using assms
proof (induction sched arbitrary: el)
  case Nil
  then show ?case by simp
next
  case (Cons i sched)
  from Cons.IH[OF loop_step_hwnds[OF Cons.prems]] show ?case by simp
qed

lemma loop_step_safe:
  assumes nf: "never_fatal env sel"
    and run: "stopped el = None"
    and safe: "list_all2 (\<lambda>h pc. hwnd_of (co_exec (snd pc)) = h \<and> pos_safe env (fst pc) (snd pc))
                 sel (coroutines el)"
  shows "stopped (loop_step env i el) = None"
    and "list_all2 (\<lambda>h pc. hwnd_of (co_exec (snd pc)) = h \<and> pos_safe env (fst pc) (snd pc))
           sel (coroutines (loop_step env i el))"
    and "j < length (coroutines el) \<Longrightarrow>
            steps_left env (fst (coroutines (loop_step env i el) ! j))
                           (snd (coroutines (loop_step env i el) ! j))
              \<le> steps_left env (fst (coroutines el ! j)) (snd (coroutines el ! j))
                   - (if j = i then 1 else 0)"
proof -
  let ?P = "\<lambda>h pc. hwnd_of (co_exec (snd pc)) = h \<and> pos_safe env (fst pc) (snd pc)"
  have "stopped (loop_step env i el) = None
      \<and> list_all2 ?P sel (coroutines (loop_step env i el))
      \<and> (j < length (coroutines el) \<longrightarrow>
            steps_left env (fst (coroutines (loop_step env i el) ! j))
                           (snd (coroutines (loop_step env i el) ! j))
              \<le> steps_left env (fst (coroutines el ! j)) (snd (coroutines el ! j))
                   - (if j = i then 1 else 0))"
  proof (cases "i < length (coroutines el)")
    case False
    then have "loop_step env i el = el" by (simp add: loop_step_idle)
    with run safe False show ?thesis by auto
  next
    case True
    let ?p = "fst (coroutines el ! i)" and ?co = "snd (coroutines el ! i)"
    let ?r = "co_step env ?p ?co (shared el)"
    from safe have len: "length sel = length (coroutines el)" by (rule list_all2_lengthD)
    from list_all2_nthD2[OF safe True]
    have old: "hwnd_of (co_exec ?co) = sel ! i" "pos_safe env ?p ?co" by simp_all
    from True len have "sel ! i \<in> set sel" by simp
    with nf old(1) have conn: "\<forall>n. connect_error env (hwnd_of (co_exec ?co)) \<noteq> Some (Fatal n)"
      and calls: "\<forall>t \<in> set (pipeline env (hwnd_of (co_exec ?co))). \<forall>call n.
                    returned (t_func t call) \<noteq> Inl (Fatal n)"
      unfolding never_fatal_def by simp_all
    have safe': "pos_safe env (fst ?r) (fst (snd ?r))"
      by (rule co_step_pos_safe[OF old(2) conn calls])
    have new: "?P (sel ! i) (fst ?r, fst (snd ?r))"
      using safe' old(1) by (simp add: co_step_hwnd)
    from list_all2_update_cong[of ?P, OF safe new, of i]
    have all: "list_all2 ?P sel ((coroutines el)[i := (fst ?r, fst (snd ?r))])"
      by (simp only: list_update_id)
    note el' = loop_step_eq[OF run True, of env]
    have nostop: "stopped (loop_step env i el) = None"
      by (simp add: el' pos_safe_not_fatal[OF safe'])
    have cos: "coroutines (loop_step env i el) = (coroutines el)[i := (fst ?r, fst (snd ?r))]"
      by (simp add: el')
    have less: "steps_left env (fst (coroutines (loop_step env i el) ! j))
                           (snd (coroutines (loop_step env i el) ! j))
              \<le> steps_left env (fst (coroutines el ! j)) (snd (coroutines el ! j))
                   - (if j = i then 1 else 0)"
      if j: "j < length (coroutines el)"
    proof (cases "j = i")
      case True
      with j co_step_steps_left[of env ?p ?co "shared el"] show ?thesis
        by (simp add: cos)
    next
      case False
      then show ?thesis by (simp add: cos)
    qed
    from nostop all less show ?thesis by (simp add: cos)
  qed
  then show "stopped (loop_step env i el) = None"
    and "list_all2 ?P sel (coroutines (loop_step env i el))"
    and "j < length (coroutines el) \<Longrightarrow>
            steps_left env (fst (coroutines (loop_step env i el) ! j))
                           (snd (coroutines (loop_step env i el) ! j))
              \<le> steps_left env (fst (coroutines el ! j)) (snd (coroutines el ! j))
                   - (if j = i then 1 else 0)"
    by blast+
qed

lemma run_schedule_safe:
  assumes nf: "never_fatal env sel"
    and run: "stopped el = None"
    and safe: "list_all2 (\<lambda>h pc. hwnd_of (co_exec (snd pc)) = h \<and> pos_safe env (fst pc) (snd pc))
                 sel (coroutines el)"
    and j: "j < length (coroutines el)"
  shows "stopped (run_schedule env sched el) = None
       \<and> steps_left env (fst (coroutines (run_schedule env sched el) ! j))
                        (snd (coroutines (run_schedule env sched el) ! j))
           \<le> steps_left env (fst (coroutines el ! j)) (snd (coroutines el ! j))
                - count_list sched j"
  using run safe j
proof (induction sched arbitrary: el)
  case Nil
  then show ?case by simp
next
  case (Cons i sched)
  let ?el = "loop_step env i el"
  note st = loop_step_safe(1)[OF nf Cons.prems(1,2), where i = i]
    loop_step_safe(2)[OF nf Cons.prems(1,2), where i = i]
    loop_step_safe(3)[OF nf Cons.prems(1,2), where i = i and j = j]
  from Cons.prems(3) have j': "j < length (coroutines ?el)" by (simp add: loop_step_length)
  from Cons.IH[OF st(1) st(2) j']
  have stop: "stopped (run_schedule env sched ?el) = None"
    and a: "steps_left env (fst (coroutines (run_schedule env sched ?el) ! j))
                           (snd (coroutines (run_schedule env sched ?el) ! j))
              \<le> steps_left env (fst (coroutines ?el ! j)) (snd (coroutines ?el ! j))
                   - count_list sched j"
    by simp_all
  from st(3)[OF Cons.prems(3)]
  have b: "steps_left env (fst (coroutines ?el ! j)) (snd (coroutines ?el ! j))
              \<le> steps_left env (fst (coroutines el ! j)) (snd (coroutines el ! j))
                   - (if j = i then 1 else 0)" .
  have "steps_left env (fst (coroutines (run_schedule env sched ?el) ! j))
                           (snd (coroutines (run_schedule env sched ?el) ! j))
              \<le> steps_left env (fst (coroutines el ! j)) (snd (coroutines el ! j))
                   - count_list (i # sched) j"
    using a b by (cases "j = i") simp_all
  with stop show ?case by simp
qed

lemma run_schedule_never_stopped:
  assumes nf: "never_fatal env sel"
    and run: "stopped el = None"
    and safe: "list_all2 (\<lambda>h pc. hwnd_of (co_exec (snd pc)) = h \<and> pos_safe env (fst pc) (snd pc))
                 sel (coroutines el)"
  shows "stopped (run_schedule env sched el) = None"
  using run safe
proof (induction sched arbitrary: el)
  case Nil
  then show ?case by simp
next
  case (Cons i sched)
  from Cons.IH[OF loop_step_safe(1)[OF nf Cons.prems, where i = i]
      loop_step_safe(2)[OF nf Cons.prems, where i = i]]
  show ?case by simp
qed

subsection \<open>What \<open>start_task\<close> gathers and what it returns\<close>

lemma start_task_returns_none:
  "fst (start_task env sched selected_windows d) = Returned r \<Longrightarrow> r = None"
  by (auto simp: start_task_def split: prod.splits gather_result.splits raised.splits if_splits)

lemma initial_loop_hwnds:
  "list_all2 (\<lambda>h pc. hwnd_of (co_exec (snd pc)) = h \<and> pos_hwnd (fst pc) (snd pc))
     (map hwnd_of exs) (coroutines (initial_loop exs w))"
  by (simp add: initial_loop_def list_all2_map1 list_all2_map2 list_all2_refl)

lemma initial_loop_safe:
  "list_all2 (\<lambda>h pc. hwnd_of (co_exec (snd pc)) = h \<and> pos_safe env (fst pc) (snd pc))
     (map hwnd_of exs) (coroutines (initial_loop exs w))"
  by (simp add: initial_loop_def list_all2_map1 list_all2_map2 list_all2_refl)

lemma launch_and_gather_cases:
  assumes "create_executors env sel sel (window_executors d) [] = (Inr exs, execs)"
  shows "fst (launch_and_gather env sched sel d)
     = (case stopped (run_schedule env sched (initial_loop exs (dt_world d))) of
          Some n \<Rightarrow> LoopStopped n
        | None \<Rightarrow>
            (case collect (coroutines (run_schedule env sched (initial_loop exs (dt_world d)))) of
               Some outs \<Rightarrow> Gathered outs
             | None \<Rightarrow> Waiting))"
  using assms by (simp add: launch_and_gather_def Let_def split: option.splits)

lemma gathered_one_per_window:
  assumes "launch_and_gather env sched sel d = (Gathered outs, d')"
  shows "length outs = length sel
       \<and> (\<forall>i < length sel. \<forall>outcome. outs ! i = Inr outcome \<longrightarrow> outcome_hwnd outcome = sel ! i)"
proof -
  obtain res execs where ce: "create_executors env sel sel (window_executors d) [] = (res, execs)"
    by (cases "create_executors env sel sel (window_executors d) []") auto
  from assms ce obtain exs where res: "res = Inr exs"
    by (cases res) (auto simp: launch_and_gather_def)
  let ?el = "run_schedule env sched (initial_loop exs (dt_world d))"
  from create_executors_hwnds[of env sel sel "window_executors d" "[]" exs] ce res
  have hw: "map hwnd_of exs = sel" by simp
  from assms launch_and_gather_cases[OF ce[unfolded res], of sched]
  have col: "collect (coroutines ?el) = Some outs"
    by (auto split: option.splits)
  from collect_Some[OF col]
  have len: "length outs = length (coroutines ?el)"
    and fin: "\<forall>j < length (coroutines ?el). fst (coroutines ?el ! j) = Finished (outs ! j)"
    by simp_all
  from run_schedule_hwnds[OF initial_loop_hwnds, where exs1 = exs and w1 = "dt_world d"
      and env = env and sched = sched] hw
  have all: "list_all2 (\<lambda>h pc. hwnd_of (co_exec (snd pc)) = h \<and> pos_hwnd (fst pc) (snd pc))
               sel (coroutines ?el)" by simp
  then have len2: "length sel = length (coroutines ?el)" by (rule list_all2_lengthD)
  have "outcome_hwnd outcome = sel ! i" if i: "i < length sel" and o: "outs ! i = Inr outcome"
    for i outcome
  proof -
    from i len2 have i': "i < length (coroutines ?el)" by simp
    from list_all2_nthD2[OF all i']
    have h: "hwnd_of (co_exec (snd (coroutines ?el ! i))) = sel ! i"
      and p: "pos_hwnd (fst (coroutines ?el ! i)) (snd (coroutines ?el ! i))" by simp_all
    from fin i' o have "fst (coroutines ?el ! i) = Finished (Inr outcome)" by simp
    with p h show ?thesis by simp
  qed
  with len len2 show ?thesis by simp
qed

lemma fair_schedule_gathers:
  assumes ctor: "\<forall>h \<in> set sel. construct_error env h = None"
    and nf: "never_fatal env sel"
    and fair: "lets_all_finish env sel sched"
  shows "\<exists>outs d'. launch_and_gather env sched sel d = (Gathered outs, d')"
proof -
  let ?exs = "map (\<lambda>h. new_executor h sel) sel"
  obtain res execs where ce: "create_executors env sel sel (window_executors d) [] = (res, execs)"
    by (cases "create_executors env sel sel (window_executors d) []") auto
  from create_executors_ok[OF ctor, of sel "window_executors d" "[]"] ce
  have res: "res = Inr ?exs" by simp
  have hw: "map hwnd_of ?exs = sel" by (simp add: new_executor_def o_def)
  let ?init = "initial_loop ?exs (dt_world d)"
  let ?el = "run_schedule env sched ?init"
  have run0: "stopped ?init = None" by (simp add: initial_loop_def)
  have len0: "length (coroutines ?init) = length sel" by (simp add: initial_loop_def)
  from initial_loop_safe[of env ?exs "dt_world d"] hw
  have safe0: "list_all2 (\<lambda>h pc. hwnd_of (co_exec (snd pc)) = h \<and> pos_safe env (fst pc) (snd pc))
                 sel (coroutines ?init)" by simp
  have nostop: "stopped ?el = None"
    by (rule run_schedule_never_stopped[OF nf run0 safe0])
  have finished: "\<exists>r. fst (coroutines ?el ! j) = Finished r" if j: "j < length (coroutines ?el)" for j
  proof -
    from j have j0: "j < length (coroutines ?init)" by (simp add: run_schedule_length)
    then have js: "j < length sel" by (simp add: len0)
    from run_schedule_safe[OF nf run0 safe0 j0, of sched]
    have "steps_left env (fst (coroutines ?el ! j)) (snd (coroutines ?el ! j))
            \<le> steps_left env (fst (coroutines ?init ! j)) (snd (coroutines ?init ! j))
                 - count_list sched j" by simp
    moreover have "steps_left env (fst (coroutines ?init ! j)) (snd (coroutines ?init ! j))
            = length (pipeline env (sel ! j)) + 3"
      using js by (simp add: initial_loop_def new_executor_def)
    moreover from fair js have "length (pipeline env (sel ! j)) + 3 \<le> count_list sched j"
      by (simp add: lets_all_finish_def)
    ultimately have "steps_left env (fst (coroutines ?el ! j)) (snd (coroutines ?el ! j)) = 0"
      by simp
    then show ?thesis by (rule steps_left_0)
  qed
  then obtain outs where col: "collect (coroutines ?el) = Some outs"
    using collect_all_finished[of "coroutines ?el"] by blast
  from launch_and_gather_cases[OF ce[unfolded res], of sched] nostop col
  have "fst (launch_and_gather env sched sel d) = Gathered outs" by simp
  then show ?thesis by (cases "launch_and_gather env sched sel d") auto
qed

text \<open>
  C2, as the code has it. \<open>start_task\<close> never returns a report: whenever it returns,
  it returns \<open>None\<close>, and the list that \<open>asyncio.gather\<close> produces is dropped. Whenever
  \<open>gather\<close> returns for a selection of \<open>N\<close> windows, in whatever order the event loop let
  the executors run and however many tasks or connections failed, its list has exactly
  \<open>N\<close> entries, one per window in the order of the selection: the value that the
  window's \<open>execute_all_tasks\<close> returned, carrying the window's handle, or the exception
  that left it. And \<open>gather\<close> does return, and \<open>start_task\<close> after it, for a non-empty
  selection when no run is active, every executor can be constructed, no call raises
  \<open>KeyboardInterrupt\<close> or \<open>SystemExit\<close>, and the loop lets every executor take all its
  steps.
\<close>

theorem start_task_gathers_one_result_per_window:
  "(fst (start_task env sched selected_windows d) = Returned r \<longrightarrow> r = None)
   \<and> (launch_and_gather env sched selected_windows d = (Gathered outs, d') \<longrightarrow>
        length outs = length selected_windows
        \<and> (\<forall>i < length selected_windows. \<forall>outcome.
              outs ! i = Inr outcome \<longrightarrow> outcome_hwnd outcome = selected_windows ! i))
   \<and> (selected_windows \<noteq> [] \<and> \<not> dt_is_running d
        \<and> (\<forall>h \<in> set selected_windows. construct_error env h = None)
        \<and> never_fatal env selected_windows
        \<and> lets_all_finish env selected_windows sched \<longrightarrow>
        (\<exists>outs1 d1.
           launch_and_gather env sched selected_windows (d\<lparr>dt_is_running := True\<rparr>) = (Gathered outs1, d1)
           \<and> length outs1 = length selected_windows
           \<and> start_task env sched selected_windows d = (Returned None, d1\<lparr>dt_is_running := False\<rparr>)))"
proof (intro conjI impI)
  assume "fst (start_task env sched selected_windows d) = Returned r"
  then show "r = None" by (rule start_task_returns_none)
next
  assume g: "launch_and_gather env sched selected_windows d = (Gathered outs, d')"
  from gathered_one_per_window[OF g] show "length outs = length selected_windows" by simp
  from gathered_one_per_window[OF g]
  show "\<forall>i < length selected_windows. \<forall>outcome.
          outs ! i = Inr outcome \<longrightarrow> outcome_hwnd outcome = selected_windows ! i" by simp
next
  assume h: "selected_windows \<noteq> [] \<and> \<not> dt_is_running d
        \<and> (\<forall>h \<in> set selected_windows. construct_error env h = None)
        \<and> never_fatal env selected_windows
        \<and> lets_all_finish env selected_windows sched"
  then have ctor: "\<forall>h \<in> set selected_windows. construct_error env h = None"
    and nf: "never_fatal env selected_windows"
    and fair: "lets_all_finish env selected_windows sched" by simp_all
  from fair_schedule_gathers[OF ctor nf fair, of "d\<lparr>dt_is_running := True\<rparr>"]
  obtain outs1 d1 where g: "launch_and_gather env sched selected_windows (d\<lparr>dt_is_running := True\<rparr>)
      = (Gathered outs1, d1)" by blast
  from gathered_one_per_window[OF g] have len: "length outs1 = length selected_windows" by simp
  from h g have "start_task env sched selected_windows d = (Returned None, d1\<lparr>dt_is_running := False\<rparr>)"
    by (simp add: start_task_def)
  with g len show "\<exists>outs1 d1.
           launch_and_gather env sched selected_windows (d\<lparr>dt_is_running := True\<rparr>) = (Gathered outs1, d1)
           \<and> length outs1 = length selected_windows
           \<and> start_task env sched selected_windows d = (Returned None, d1\<lparr>dt_is_running := False\<rparr>)"
    by blast
qed

theorem start_task_gathers_one_result_per_window_witness:
  "fst (launch_and_gather
          \<lparr>construct_error = (\<lambda>h. None),
           connect_error = (\<lambda>h. if h = 1002 then Some (Exception ''no such window'') else None),
           pipeline = (\<lambda>h. [\<lparr>t_name = ''bang_pai'',
              t_func = (\<lambda>call. \<lparr>returned = Inl (Exception ''lost''), elapsed = 3000000, stop_requested = False\<rparr>),
              t_config = \<lparr>is_team_task = Some False, team_size = None\<rparr>\<rparr>])\<rparr>
          [0, 1, 1, 0, 0, 1, 0, 1]
          [1001, 1002] ((new_daily_tasks 5000000)\<lparr>dt_is_running := True\<rparr>))
     = Gathered
         [Inr (ExecSuccess 1001 [''bang_pai'' \<mapsto> TaskFailed ''lost'' 3000000 5000000 8000000] 8000000),
          Inr (ExecFailed 1002 ''no such window'' 5000000)]
   \<and> fst (start_task
          \<lparr>construct_error = (\<lambda>h. None),
           connect_error = (\<lambda>h. if h = 1002 then Some (Exception ''no such window'') else None),
           pipeline = (\<lambda>h. [\<lparr>t_name = ''bang_pai'',
              t_func = (\<lambda>call. \<lparr>returned = Inl (Exception ''lost''), elapsed = 3000000, stop_requested = False\<rparr>),
              t_config = \<lparr>is_team_task = Some False, team_size = None\<rparr>\<rparr>])\<rparr>
          [0, 1, 1, 0, 0, 1, 0, 1]
          [1001, 1002] (new_daily_tasks 5000000))
     = Returned None"
proof -
  let ?env = "\<lparr>construct_error = (\<lambda>h. None),
           connect_error = (\<lambda>h. if h = 1002 then Some (Exception ''no such window'') else None),
           pipeline = (\<lambda>h. [\<lparr>t_name = ''bang_pai'',
              t_func = (\<lambda>call. \<lparr>returned = Inl (Exception ''lost''), elapsed = 3000000, stop_requested = False\<rparr>),
              t_config = \<lparr>is_team_task = Some False, team_size = None\<rparr>\<rparr>])\<rparr>"
  let ?sched = "[0, 1, 1, 0, 0, 1, 0, 1] :: nat list"
  let ?sel = "[1001, 1002] :: hwnd list"
  let ?d = "new_daily_tasks 5000000"
  have h1: "?sel \<noteq> []" by simp
  have h2: "\<not> dt_is_running ?d" by (simp add: new_daily_tasks_def)
  have h3: "\<forall>h \<in> set ?sel. construct_error ?env h = None" by simp
  have h4: "never_fatal ?env ?sel" by (simp add: never_fatal_def)
  have h5: "lets_all_finish ?env ?sel ?sched"
    by (simp add: lets_all_finish_def less_Suc_eq)
  from h1 h2 h3 h4 h5
  have hyp: "?sel \<noteq> [] \<and> \<not> dt_is_running ?d
        \<and> (\<forall>h \<in> set ?sel. construct_error ?env h = None)
        \<and> never_fatal ?env ?sel \<and> lets_all_finish ?env ?sel ?sched" by blast
  note th = start_task_gathers_one_result_per_window [where env = ?env and sched = ?sched
      and selected_windows = ?sel and d = ?d and r = None and outs = "[]" and d' = ?d,
      THEN conjunct2, THEN conjunct2, THEN mp, OF hyp]
  from th obtain outs1 d1 where st: "start_task ?env ?sched ?sel ?d
      = (Returned None, d1\<lparr>dt_is_running := False\<rparr>)" by blast
  then have ret: "fst (start_task ?env ?sched ?sel ?d) = Returned None" by simp
  have ce: "create_executors ?env ?sel ?sel (window_executors (?d\<lparr>dt_is_running := True\<rparr>)) []
      = (Inr [new_executor 1001 ?sel, new_executor 1002 ?sel],
         [1001 \<mapsto> new_executor 1001 ?sel, 1002 \<mapsto> new_executor 1002 ?sel])"
    by (simp add: new_daily_tasks_def Let_def)
  have run: "run_schedule ?env ?sched
        (initial_loop [new_executor 1001 ?sel, new_executor 1002 ?sel]
           (dt_world (?d\<lparr>dt_is_running := True\<rparr>)))
      = \<lparr>coroutines =
           [(Finished (Inr (ExecSuccess 1001
                [''bang_pai'' \<mapsto> TaskFailed ''lost'' 3000000 5000000 8000000] 8000000)),
             \<lparr>co_exec = new_executor 1001 ?sel,
              co_results = [''bang_pai'' \<mapsto> TaskFailed ''lost'' 3000000 5000000 8000000],
              co_clock = 8000000\<rparr>),
            (Finished (Inr (ExecFailed 1002 ''no such window'' 5000000)),
             \<lparr>co_exec = new_executor 1002 ?sel, co_results = Map.empty, co_clock = 5000000\<rparr>)],
         shared = new_coordinator, stopped = None\<rparr>"
    by (simp add: initial_loop_def new_daily_tasks_def new_executor_def loop_step_def Let_def
          run_task_eq execute_single_task_def execute_solo_task_eq finally_cleanup_def leave_def)
  have "fst (launch_and_gather ?env ?sched ?sel (?d\<lparr>dt_is_running := True\<rparr>))
     = Gathered
         [Inr (ExecSuccess 1001 [''bang_pai'' \<mapsto> TaskFailed ''lost'' 3000000 5000000 8000000] 8000000),
          Inr (ExecFailed 1002 ''no such window'' 5000000)]"
    unfolding launch_and_gather_cases[OF ce] run by simp
  with ret show ?thesis by blast
qed

text \<open>
  C2 as stated fails in three ways. For a selection of one window whose pipeline is
  empty and whose connection works, \<open>start_task\<close> returns \<open>None\<close>, not a report with one
  entry. When the constructor of the second of two executors raises, nothing is
  gathered for either window. And when a task of the only window raises \<open>SystemExit\<close>,
  the event loop stops and \<open>start_task\<close> is never resumed.
\<close>

theorem start_task_no_report_counterexample:
  "fst (start_task
          \<lparr>construct_error = (\<lambda>h. None), connect_error = (\<lambda>h. None), pipeline = (\<lambda>h. [])\<rparr>
          [0, 0, 0] [1001] (new_daily_tasks 5000000))
     = Returned None
   \<and> fst (start_task
          \<lparr>construct_error = (\<lambda>h. if h = 1002 then Some (Exception ''port'') else None),
           connect_error = (\<lambda>h. None), pipeline = (\<lambda>h. [])\<rparr>
          [0, 0, 0, 1, 1, 1] [1001, 1002] (new_daily_tasks 5000000))
     = Returned None
   \<and> fst (launch_and_gather
          \<lparr>construct_error = (\<lambda>h. if h = 1002 then Some (Exception ''port'') else None),
           connect_error = (\<lambda>h. None), pipeline = (\<lambda>h. [])\<rparr>
          [0, 0, 0, 1, 1, 1] [1001, 1002] ((new_daily_tasks 5000000)\<lparr>dt_is_running := True\<rparr>))
     = ConstructorRaised (Exception ''port'')
   \<and> fst (start_task
          \<lparr>construct_error = (\<lambda>h. None), connect_error = (\<lambda>h. None),
           pipeline = (\<lambda>h. [\<lparr>t_name = ''bang_pai'',
              t_func = (\<lambda>call. \<lparr>returned = Inl (Fatal ''SystemExit''), elapsed = 3000000, stop_requested = False\<rparr>),
              t_config = \<lparr>is_team_task = Some False, team_size = None\<rparr>\<rparr>])\<rparr>
          [0, 0, 0, 0] [1001] (new_daily_tasks 5000000))
     = NeverResumed ''SystemExit''"
proof -
  have a: "fst (start_task
          \<lparr>construct_error = (\<lambda>h. None), connect_error = (\<lambda>h. None), pipeline = (\<lambda>h. [])\<rparr>
          [0, 0, 0] [1001] (new_daily_tasks 5000000))
     = Returned None"
    by (simp add: start_task_def launch_and_gather_def initial_loop_def new_daily_tasks_def
          new_executor_def loop_step_def Let_def finally_cleanup_def leave_def)
  have b: "fst (launch_and_gather
          \<lparr>construct_error = (\<lambda>h. if h = 1002 then Some (Exception ''port'') else None),
           connect_error = (\<lambda>h. None), pipeline = (\<lambda>h. [])\<rparr>
          [0, 0, 0, 1, 1, 1] [1001, 1002] ((new_daily_tasks 5000000)\<lparr>dt_is_running := True\<rparr>))
     = ConstructorRaised (Exception ''port'')"
    by (simp add: launch_and_gather_def new_daily_tasks_def Let_def)
  have b': "fst (start_task
          \<lparr>construct_error = (\<lambda>h. if h = 1002 then Some (Exception ''port'') else None),
           connect_error = (\<lambda>h. None), pipeline = (\<lambda>h. [])\<rparr>
          [0, 0, 0, 1, 1, 1] [1001, 1002] (new_daily_tasks 5000000))
     = Returned None"
    by (simp add: start_task_def launch_and_gather_def new_daily_tasks_def Let_def)
  have c: "fst (start_task
          \<lparr>construct_error = (\<lambda>h. None), connect_error = (\<lambda>h. None),
           pipeline = (\<lambda>h. [\<lparr>t_name = ''bang_pai'',
              t_func = (\<lambda>call. \<lparr>returned = Inl (Fatal ''SystemExit''), elapsed = 3000000, stop_requested = False\<rparr>),
              t_config = \<lparr>is_team_task = Some False, team_size = None\<rparr>\<rparr>])\<rparr>
          [0, 0, 0, 0] [1001] (new_daily_tasks 5000000))
     = NeverResumed ''SystemExit''"
    by (simp add: start_task_def launch_and_gather_def initial_loop_def new_daily_tasks_def
          new_executor_def loop_step_def Let_def run_task_eq execute_single_task_def
          execute_solo_task_eq finally_cleanup_def leave_def)
  from a b b' c show ?thesis by blast
qed

subsection \<open>A coroutine that runs alone\<close>

text \<open>
  The steps of a coroutine, taken one after another with nothing in between, are
  \<open>execute_all_tasks\<close>: same value or exception, same executor, same coordinator,
  same clock.
\<close>

lemma co_steps_Finished: "co_steps env n (Finished r, co, c) = (Finished r, co, c)"
  by (induction n) simp_all

lemma co_steps_Cleanup:
  assumes "0 < n"
  shows "co_steps env n (Cleanup pending, co, c)
     = (Finished (leave (fst (finally_cleanup (co_exec co) \<lparr>coord = c, clock = co_clock co\<rparr>)) pending),
        co\<lparr>co_exec := fst (snd (finally_cleanup (co_exec co) \<lparr>coord = c, clock = co_clock co\<rparr>))\<rparr>,
        coord (snd (snd (finally_cleanup (co_exec co) \<lparr>coord = c, clock = co_clock co\<rparr>))))"
proof -
  from assms obtain m where n: "n = Suc m" by (cases n) auto
  show ?thesis by (simp add: n split_beta co_steps_Finished)
qed

lemma world_eta: "\<lparr>coord = coord w, clock = clock w\<rparr> = w"
  by simp

lemma co_steps_Loop:
  assumes "length ts + 2 \<le> n"
  shows "co_steps env n (Loop ts, co, c)
     = after_loop (run_tasks ts (co_results co, co_exec co, \<lparr>coord = c, clock = co_clock co\<rparr>))"
  using assms
proof (induction ts arbitrary: n co c)
  case Nil
  then obtain m where n: "n = Suc m" and m: "0 < m" by (cases n) auto
  have "co\<lparr>co_exec := ex\<rparr> = \<lparr>co_exec = ex, co_results = co_results co, co_clock = co_clock co\<rparr>"
    for ex by (cases co) simp
  then show ?case
    by (simp add: n co_steps_Cleanup[OF m] after_loop_def)
next
  case (Cons t ts)
  then obtain m where n: "n = Suc m" and m: "length ts + 2 \<le> m" by (cases n) auto
  from m have m0: "0 < m" by simp
  let ?s = "(co_results co, co_exec co, \<lparr>coord = c, clock = co_clock co\<rparr>)"
  show ?case
  proof (cases "is_running (co_exec co)")
    case False
    have "co\<lparr>co_exec := ex\<rparr> = \<lparr>co_exec = ex, co_results = co_results co, co_clock = co_clock co\<rparr>"
      for ex by (cases co) simp
    with False show ?thesis
      by (simp add: n co_steps_Cleanup[OF m0] after_loop_def)
  next
    case True
    obtain esc results ex' w' where r: "run_task t ?s = (esc, results, ex', w')"
      by (cases "run_task t ?s") auto
    show ?thesis
    proof (cases esc)
      case None
      let ?co' = "\<lparr>co_exec = ex', co_results = results, co_clock = clock w'\<rparr>"
      from Cons.IH[OF m, of ?co' "coord w'"]
      have "co_steps env m (Loop ts, ?co', coord w') = after_loop (run_tasks ts (results, ex', w'))"
        by (simp add: world_eta)
      with True r None show ?thesis by (simp add: n)
    next
      case (Some x)
      with True r show ?thesis
        by (simp add: n co_steps_Cleanup[OF m0] after_loop_def world_eta)
    qed
  qed
qed

lemma coroutine_alone_is_execute_all_tasks:
  fixes env co c
  defines "r \<equiv> execute_all_tasks (connect_error env) (pipeline env (hwnd_of (co_exec co)))
                  (co_exec co) \<lparr>coord = c, clock = co_clock co\<rparr>"
  assumes "steps_left env Start co \<le> n"
  shows "fst (co_steps env n (Start, co, c)) = Finished (fst r)
       \<and> co_exec (fst (snd (co_steps env n (Start, co, c)))) = fst (snd r)
       \<and> co_clock (fst (snd (co_steps env n (Start, co, c)))) = clock (snd (snd r))
       \<and> snd (snd (co_steps env n (Start, co, c))) = coord (snd (snd r))"
proof -
  let ?h = "hwnd_of (co_exec co)"
  from assms(2) obtain m where n: "n = Suc m" and m: "length (pipeline env ?h) + 2 \<le> m"
    by (cases n) auto
  from m have m0: "0 < m" by simp
  show ?thesis
  proof (cases "is_running (co_exec co)")
    case True
    then show ?thesis by (simp add: n r_def execute_all_tasks_def co_steps_Finished)
  next
    case False
    let ?co1 = "co\<lparr>co_exec := (co_exec co)\<lparr>is_running := True\<rparr>, co_results := Map.empty\<rparr>"
    show ?thesis
    proof (cases "connect_error env ?h")
      case None
      obtain esc results ex' w' where rt: "run_tasks (pipeline env ?h)
          (Map.empty, (co_exec co)\<lparr>is_running := True\<rparr>, \<lparr>coord = c, clock = co_clock co\<rparr>)
          = (esc, results, ex', w')"
        by (cases "run_tasks (pipeline env ?h)
          (Map.empty, (co_exec co)\<lparr>is_running := True\<rparr>, \<lparr>coord = c, clock = co_clock co\<rparr>)") auto
      from co_steps_Loop[OF m, of env ?co1 c] rt
      have "co_steps env m (Loop (pipeline env ?h), ?co1, c) = after_loop (esc, results, ex', w')"
        by simp
      moreover have "finally_cleanup ex' w'
          = (fst (finally_cleanup ex' w'), fst (snd (finally_cleanup ex' w')),
             snd (snd (finally_cleanup ex' w')))" by simp
      moreover have "clock (snd (snd (finally_cleanup ex' w'))) = clock w'"
        by (simp add: finally_cleanup_def Let_def split_beta split: option.splits)
      ultimately show ?thesis
        using False None rt
        by (cases esc)
           (simp_all add: n r_def execute_all_tasks_def Let_def split_beta after_loop_def run_tasks_hwnd)
    next
      case (Some x)
      have clk: "clock (snd (snd (finally_cleanup ex w))) = clock w" for ex w
        by (simp add: finally_cleanup_def Let_def split_beta split: option.splits)
      from False Some show ?thesis
        by (cases x)
           (simp_all add: n r_def execute_all_tasks_def Let_def split_beta
              co_steps_Cleanup[OF m0] clk)
    qed
  qed
qed

section \<open>The semaphore of GameAutomationManager\<close>

lemma filter_update_length:
  "i < length xs \<Longrightarrow>
     length (filter P (xs[i := y])) + (if P (xs ! i) then 1 else 0)
       = length (filter P xs) + (if P y then 1 else 0)"
proof (induction xs arbitrary: i)
  case Nil
  then show ?case by simp
next
  case (Cons x xs)
  show ?case
  proof (cases i)
    case 0
    then show ?thesis by simp
  next
    case (Suc j)
    with Cons.prems have "j < length xs" by simp
    from Cons.IH[OF this] Suc show ?thesis by simp
  qed
qed

lemma running_count_update:
  assumes "i < length (tasks m)"
  shows "running_count (m\<lparr>tasks := (tasks m)[i := (n, ph)]\<rparr>)
           + (if snd (tasks m ! i) = Running then 1 else 0)
         = running_count m + (if ph = Running then 1 else 0)"
  using filter_update_length[OF assms, of "\<lambda>t. snd t = Running" "(n, ph)"]
  by (simp add: running_count_def)

lemma manager_step_permits:
  assumes "permits_inv k m" and "manager_step e m = Some m'"
  shows "permits_inv k m'"
proof (cases e)
  case (Submit name)
  with assms show ?thesis
    by (auto simp: permits_inv_def submit_task_def Let_def running_count_def)
next
  case (Acquire i)
  with assms(2) have i: "i < length (tasks m)" and ph: "snd (tasks m ! i) = Pending"
    and pos: "0 < semaphore m"
    and m': "m' = m\<lparr>semaphore := semaphore m - 1,
                     tasks := (tasks m)[i := (fst (tasks m ! i), Running)]\<rparr>"
    by (auto split: if_splits)
  from running_count_update[OF i, of "fst (tasks m ! i)" Running] ph
  have "running_count (m\<lparr>tasks := (tasks m)[i := (fst (tasks m ! i), Running)]\<rparr>)
          = running_count m + 1" by simp
  then have "running_count m' = running_count m + 1"
    by (simp add: m' running_count_def)
  with assms(1) pos show ?thesis by (simp add: permits_inv_def m')
next
  case (Finish i outcome)
  with assms(2) have i: "i < length (tasks m)" and ph: "snd (tasks m ! i) = Running"
    and m': "m' = task_done_callback (fst (tasks m ! i)) outcome
                    (m\<lparr>semaphore := semaphore m + 1,
                       tasks := (tasks m)[i := (fst (tasks m ! i), Done)]\<rparr>)"
    by (auto split: if_splits)
  from running_count_update[OF i, of "fst (tasks m ! i)" Done] ph
  have "running_count (m\<lparr>tasks := (tasks m)[i := (fst (tasks m ! i), Done)]\<rparr>) + 1
          = running_count m" by simp
  then have "running_count m' + 1 = running_count m"
    by (simp add: m' running_count_def task_done_callback_def)
  with assms(1) show ?thesis by (simp add: permits_inv_def m' task_done_callback_def)
next
  case (Cancel i)
  show ?thesis
  proof (cases "i < length (tasks m) \<and> snd (tasks m ! i) = Pending")
    case True
    with assms(2) Cancel have m': "m' = m\<lparr>tasks := (tasks m)[i := (fst (tasks m ! i), Done)]\<rparr>"
      by simp
    from running_count_update[of i m "fst (tasks m ! i)" Done] True
    have "running_count m' = running_count m" by (simp add: m')
    with assms(1) show ?thesis by (simp add: permits_inv_def m')
  next
    case False
    with assms(2) Cancel have i: "i < length (tasks m)" and ph: "snd (tasks m ! i) = Running"
      and m': "m' = m\<lparr>semaphore := semaphore m + 1,
                       tasks := (tasks m)[i := (fst (tasks m ! i), Done)]\<rparr>"
      by (auto split: if_splits)
    from running_count_update[OF i, of "fst (tasks m ! i)" Done] ph
    have "running_count (m\<lparr>tasks := (tasks m)[i := (fst (tasks m ! i), Done)]\<rparr>) + 1
            = running_count m" by simp
    then have "running_count m' + 1 = running_count m"
      by (simp add: m' running_count_def)
    with assms(1) show ?thesis by (simp add: permits_inv_def m')
  qed
qed

lemma run_events_permits:
  assumes "permits_inv k m" and "run_events evs m = Some m'"
  shows "permits_inv k m'"
  using assms
proof (induction evs arbitrary: m)
  case Nil
  then show ?case by simp
next
  case (Cons e evs)
  from Cons.prems(2) obtain m1 where step: "manager_step e m = Some m1"
    and rest: "run_events evs m1 = Some m'"
    by (auto split: option.splits)
  from Cons.IH[OF manager_step_permits[OF Cons.prems(1) step] rest] show ?case .
qed

text \<open>
  C6. A manager constructed with \<open>max_concurrent = k\<close>, after any sequence of
  submissions, entries into the \<open>async with\<close> block, exits from it and cancellations,
  however many tasks were submitted: the tasks inside the block and the free permits
  add up to \<open>k\<close>, so at most \<open>k\<close> task functions are running, and when \<open>k\<close> are running
  no further task can enter.
\<close>

theorem running_tasks_bounded:
  assumes "new_manager k = Inr m0" and "run_events evs m0 = Some m"
  shows "running_count m \<le> nat k
     \<and> semaphore m + running_count m = nat k
     \<and> (running_count m = nat k \<longrightarrow> manager_step (Acquire i) m = None)"
proof -
  from assms(1) have "0 \<le> k" and m0: "m0 = \<lparr>max_concurrent = k, semaphore = nat k, tasks = [],
      active_tasks = Map.empty, task_results = Map.empty, task_counter = 0\<rparr>"
    by (auto simp: new_manager_def split: if_splits)
  have "permits_inv (nat k) m0" by (simp add: permits_inv_def m0 running_count_def)
  from run_events_permits[OF this assms(2)] have inv: "semaphore m + running_count m = nat k"
    by (simp add: permits_inv_def)
  then show ?thesis by auto
qed

theorem running_tasks_bounded_witness:
  "running_count (the (run_events
       [Submit None, Submit (Some ''launch''), Submit None, Acquire 0, Acquire 2,
        Finish 0 (Inl (Raised ''lost'')), Acquire 1]
       (projr (new_manager 2)))) \<le> 2
   \<and> manager_step (Acquire 1)
       (the (run_events [Submit None, Submit (Some ''launch''), Submit None, Acquire 0, Acquire 2]
          (projr (new_manager 2)))) = None"
proof -
  let ?m0 = "\<lparr>max_concurrent = 2, semaphore = 2, tasks = [], active_tasks = Map.empty,
               task_results = Map.empty, task_counter = 0\<rparr>"
  let ?evs = "[Submit None, Submit (Some ''launch''), Submit None, Acquire 0, Acquire 2,
        Finish 0 (Inl (Raised ''lost'')), Acquire 1]"
  let ?evs2 = "[Submit None, Submit (Some ''launch''), Submit None, Acquire 0, Acquire 2]"
  have new: "new_manager 2 = Inr ?m0" by (simp add: new_manager_def)
  have ok: "run_events ?evs ?m0 \<noteq> None"
    by (simp add: submit_task_def Let_def task_done_callback_def)
  then obtain m where m: "run_events ?evs ?m0 = Some m" by blast
  have ok2: "run_events ?evs2 ?m0 \<noteq> None"
    by (simp add: submit_task_def Let_def)
  then obtain m2 where m2: "run_events ?evs2 ?m0 = Some m2" by blast
  have full: "running_count m2 = nat 2"
    using m2 by (auto simp: submit_task_def Let_def running_count_def)
  from running_tasks_bounded [OF new m, of 0]
  have a: "running_count m \<le> 2" by simp
  from running_tasks_bounded [OF new m2, of 1] full
  have b: "manager_step (Acquire 1) m2 = None" by blast
  show ?thesis unfolding new sum.sel m m2 option.sel using a b by blast
qed

end
